theory Spec2Isabelle
  imports Main "HOL-Library.Word"
begin

section \<open>Mutex\<close>

text \<open>
  The mutex implementation is not among the sources; only its test group is
  (\<^verbatim>\<open>TEST_GROUP (Mutex)\<close>).  The tests compare results with \<^verbatim>\<open>SUCCESS\<close> and
  \<^verbatim>\<open>FAIL\<close> and read \<^verbatim>\<open>mutex_islocked\<close> as 0 or 1.
\<close>

datatype result_t = FAIL | SUCCESS

record mutex_t =
  count :: nat

text \<open>Modelled from the spec: \<^verbatim>\<open>mutex_init\<close> (absent from the sources): count = 0.\<close>

definition mutex_init :: "mutex_t \<Rightarrow> mutex_t" where
  "mutex_init mtx = mtx\<lparr>count := 0\<rparr>"

text \<open>Modelled from the spec: \<^verbatim>\<open>mutex_lock\<close> (absent from the sources): fails if
  count is not 0; otherwise sets count to 1 and returns success.\<close>

definition mutex_lock :: "mutex_t \<Rightarrow> result_t \<times> mutex_t" where
  "mutex_lock mtx =
     (if count mtx \<noteq> 0 then (FAIL, mtx) else (SUCCESS, mtx\<lparr>count := 1\<rparr>))"

text \<open>Modelled from the spec: \<^verbatim>\<open>mutex_unlock\<close> (absent from the sources): fails if
  count is 0; otherwise clears count and returns success.\<close>

definition mutex_unlock :: "mutex_t \<Rightarrow> result_t \<times> mutex_t" where
  "mutex_unlock mtx =
     (if count mtx = 0 then (FAIL, mtx) else (SUCCESS, mtx\<lparr>count := 0\<rparr>))"

text \<open>Modelled from the spec: \<^verbatim>\<open>mutex_islocked\<close> (absent from the sources): reports
  count.\<close>

definition mutex_islocked :: "mutex_t \<Rightarrow> nat" where
  "mutex_islocked mtx = count mtx"

text \<open>The mutexes an application can hold: initialised, then locked and unlocked
  any number of times, whatever the calls return.\<close>

inductive mutex_reachable :: "mutex_t \<Rightarrow> bool" where
  mr_init: "mutex_reachable (mutex_init mtx)"
| mr_lock: "mutex_reachable mtx \<Longrightarrow> mutex_reachable (snd (mutex_lock mtx))"
| mr_unlock: "mutex_reachable mtx \<Longrightarrow> mutex_reachable (snd (mutex_unlock mtx))"

section \<open>Queue\<close>

text \<open>
  The queue source (\<^verbatim>\<open>QueueInit\<close> ... \<^verbatim>\<open>QueueFull\<close>) uses a type \<^verbatim>\<open>len_t\<close>,
  kernel functions and port macros whose declarations are not among the sources.
  \<^item> \<^verbatim>\<open>len_t\<close> is an unsigned machine integer of unknown width: \<open>'l word\<close>.
  \<^item> Pointers into the buffer are byte addresses (\<open>int\<close>); the buffer memory is a
    store from addresses to bytes.
  \<^item> Every call of a port macro or kernel function is recorded, in program order,
    in a call log; the kernel's own state (scheduler lock count, ready lists) is not
    part of the queue.
  \<^item> The two wait lists of the queue's event are lists of task handles.
\<close>

type_synonym byte = "8 word"
type_synonym addr = int
type_synonym bool_t = nat
type_synonym tick_t = nat

datatype evlist = LIST_READ | LIST_WRITE

datatype 't call =
    CRITICAL_ENTER | CRITICAL_EXIT
  | INTERRUPTS_DISABLE | INTERRUPTS_ENABLE
  | SchedulerLock | SchedulerUnlock
  | MEMCPY
  | GetCurrentTask
  | OSEventRwInit
  | OSEventUnblockTasks evlist
  | OSEventPrePendTask evlist 't
  | OSEventPendTask evlist 't tick_t

record 't event_rw_t =
  list_read :: "'t list"
  list_write :: "'t list"

record (overloaded) ('l, 't) queue_t =
  item_size :: "'l word"
  free :: "'l word"
  used :: "'l word"
  w_lock :: "'l word"
  r_lock :: "'l word"
  head_ptr :: addr
  tail_ptr :: addr
  buff_ptr :: addr
  buff_end_ptr :: addr
  event :: "'t event_rw_t"

record (overloaded) ('l, 't) qsys =
  que :: "('l, 't) queue_t"
  mem :: "addr \<Rightarrow> byte"
  current :: 't
  calls :: "'t call list"

definition call :: "'t call \<Rightarrow> ('l::len, 't) qsys \<Rightarrow> ('l, 't) qsys" where
  "call c s = s\<lparr>calls := calls s @ [c]\<rparr>"

text \<open>\<^verbatim>\<open>memcpy\<close> out of the store (\<open>n\<close> bytes from \<open>pos\<close>) and into it.  The
  caller's buffer is a byte list; the source requires it to be at least
  \<^verbatim>\<open>item_size\<close> bytes long, and bytes the C code would read beyond its end do not
  change the store.\<close>

definition memcpy_out :: "(addr \<Rightarrow> byte) \<Rightarrow> addr \<Rightarrow> nat \<Rightarrow> byte list" where
  "memcpy_out m pos n = map (\<lambda>i. m (pos + int i)) [0..<n]"

definition memcpy_in :: "(addr \<Rightarrow> byte) \<Rightarrow> addr \<Rightarrow> nat \<Rightarrow> byte list \<Rightarrow> (addr \<Rightarrow> byte)" where
  "memcpy_in m pos n src =
     (\<lambda>a. if pos \<le> a \<and> a < pos + int n \<and> nat (a - pos) < length src
          then src ! nat (a - pos) else m a)"

text \<open>Modelled from the spec: \<^verbatim>\<open>OSEventRwInit\<close> (absent from the sources)
  initialises the event wait pair: two task lists, both empty.\<close>

definition OSEventRwInit_f :: "('l::len, 't) qsys \<Rightarrow> ('l, 't) qsys" where
  "OSEventRwInit_f s =
     call OSEventRwInit
       (s\<lparr>que := (que s)\<lparr>event := \<lparr>list_read = [], list_write = []\<rparr>\<rparr>\<rparr>)"

text \<open>Modelled from the spec: \<^verbatim>\<open>OSEventUnblockTasks\<close> (absent from the sources)
  removes the head task of the list (and re-inserts it into its priority's ready
  list, which is kernel state and only recorded in the call log); one task per
  call.\<close>

definition OSEventUnblockTasks_f :: "evlist \<Rightarrow> ('l::len, 't) qsys \<Rightarrow> ('l, 't) qsys" where
  "OSEventUnblockTasks_f w s =
     call (OSEventUnblockTasks w)
       (case w of
          LIST_READ \<Rightarrow>
            s\<lparr>que := (que s)\<lparr>event := (event (que s))\<lparr>list_read := tl (list_read (event (que s)))\<rparr>\<rparr>\<rparr>
        | LIST_WRITE \<Rightarrow>
            s\<lparr>que := (que s)\<lparr>event := (event (que s))\<lparr>list_write := tl (list_write (event (que s)))\<rparr>\<rparr>\<rparr>)"

text \<open>Modelled from the spec: \<^verbatim>\<open>OSEventPrePendTask\<close> (absent from the sources)
  detaches the task's event node from any prior wait list and prepares it to be
  inserted into the list.\<close>

definition OSEventPrePendTask_f :: "evlist \<Rightarrow> 't \<Rightarrow> ('l::len, 't) qsys \<Rightarrow> ('l, 't) qsys" where
  "OSEventPrePendTask_f w tsk s =
     call (OSEventPrePendTask w tsk)
       (s\<lparr>que := (que s)\<lparr>event :=
            \<lparr>list_read = removeAll tsk (list_read (event (que s))),
             list_write = removeAll tsk (list_write (event (que s)))\<rparr>\<rparr>\<rparr>)"

text \<open>Modelled from the spec: \<^verbatim>\<open>OSEventPendTask\<close> (absent from the sources)
  inserts the task's event node into the list, in FIFO order; the wake deadline and
  the removal from the ready list are kernel state and only recorded in the call
  log.\<close>

definition OSEventPendTask_f :: "evlist \<Rightarrow> 't \<Rightarrow> tick_t \<Rightarrow> ('l::len, 't) qsys \<Rightarrow> ('l, 't) qsys" where
  "OSEventPendTask_f w tsk ticks_to_wait s =
     call (OSEventPendTask w tsk ticks_to_wait)
       (case w of
          LIST_READ \<Rightarrow>
            s\<lparr>que := (que s)\<lparr>event := (event (que s))\<lparr>list_read := list_read (event (que s)) @ [tsk]\<rparr>\<rparr>\<rparr>
        | LIST_WRITE \<Rightarrow>
            s\<lparr>que := (que s)\<lparr>event := (event (que s))\<lparr>list_write := list_write (event (que s)) @ [tsk]\<rparr>\<rparr>\<rparr>)"

text \<open>
  The index \<^verbatim>\<open>(length - 1) * item_size\<close> of \<^verbatim>\<open>QueueInit\<close> is computed in the type
  that C's integer promotions give \<^verbatim>\<open>len_t\<close>.  Where \<^verbatim>\<open>len_t\<close> is narrower than
  \<^verbatim>\<open>int\<close> (taken as \<open>INT_BITS = 32\<close> bits wide) that type is \<^verbatim>\<open>int\<close>: the
  subtraction and the product are signed, and a product outside the range of
  \<^verbatim>\<open>int\<close>, which C leaves undefined, wraps in two's complement here.  Otherwise the
  type is \<^verbatim>\<open>len_t\<close> itself and the arithmetic is modulo \<open>2 ^ LENGTH('l)\<close>.
\<close>

definition INT_BITS :: nat where
  "INT_BITS = 32"

definition last_item_index :: "'l::len word \<Rightarrow> 'l word \<Rightarrow> int" where
  "last_item_index len itm_size =
     (if LENGTH('l) < INT_BITS
      then signed_take_bit (INT_BITS - 1) ((uint len - 1) * uint itm_size)
      else uint ((len - 1) * itm_size))"

text \<open>\<^verbatim>\<open>QueueInit\<close>.\<close>

definition QueueInit ::
  "addr \<Rightarrow> 'l word \<Rightarrow> 'l word \<Rightarrow> ('l::len, 't) qsys \<Rightarrow> ('l, 't) qsys" where
  "QueueInit buff8_ptr len itm_size s =
     OSEventRwInit_f
       (s\<lparr>que := (que s)\<lparr>
            item_size := itm_size,
            free := len,
            used := 0,
            w_lock := 0,
            r_lock := 0,
            head_ptr := buff8_ptr,
            tail_ptr := buff8_ptr,
            buff_ptr := buff8_ptr,
            buff_end_ptr := buff8_ptr + last_item_index len itm_size\<rparr>\<rparr>)"

text \<open>
  \<^verbatim>\<open>QueueRead\<close>, in the three parts its two critical sections delimit.
  \<open>QueueRead_begin\<close> is the first critical section (the test of \<^verbatim>\<open>used\<close>, the
  reservation of the head slot and \<^verbatim>\<open>CRITICAL_EXIT\<close>); the copy follows with
  interrupts enabled; \<open>QueueRead_end\<close> is the second critical section (publish,
  \<^verbatim>\<open>SchedulerLock\<close>, unblock a writer) up to the final \<^verbatim>\<open>SchedulerUnlock\<close>.
  \<open>conc\<close> stands for the macro \<^verbatim>\<open>LIBRERTOS_TEST_CONCURRENT_ACCESS\<close> (not among the
  sources): whatever runs between the two critical sections.
\<close>

definition QueueRead_reserve ::
  "('l::len, 't) qsys \<Rightarrow> (addr \<times> 'l word) \<times> ('l, 't) qsys" where
  "QueueRead_reserve s =
     (let ptr = que s;
          pos_ptr = head_ptr ptr;
          ptr = ptr\<lparr>head_ptr := head_ptr ptr + uint (item_size ptr)\<rparr>;
          ptr = (if head_ptr ptr > buff_end_ptr ptr
                 then ptr\<lparr>head_ptr := buff_ptr ptr\<rparr> else ptr);
          lock = r_lock ptr;
          ptr = ptr\<lparr>r_lock := r_lock ptr + 1\<rparr>;
          ptr = ptr\<lparr>used := used ptr - 1\<rparr>
      in ((pos_ptr, lock), s\<lparr>que := ptr\<rparr>))"

definition QueueRead_begin ::
  "('l::len, 't) qsys \<Rightarrow> (addr \<times> 'l word) option \<times> ('l, 't) qsys" where
  "QueueRead_begin s0 =
     (let s = call CRITICAL_ENTER s0 in
      if used (que s) \<noteq> 0
      then (let (r, s) = QueueRead_reserve s in (Some r, call CRITICAL_EXIT s))
      else (None, call CRITICAL_EXIT s))"

definition QueueRead_publish :: "'l word \<Rightarrow> ('l::len, 't) qsys \<Rightarrow> ('l, 't) qsys" where
  "QueueRead_publish lock s0 =
     (let ptr = que s0;
          ptr = (if lock = 0
                 then (ptr\<lparr>free := free ptr + r_lock ptr\<rparr>)\<lparr>r_lock := 0\<rparr>
                 else ptr);
          s = call SchedulerLock (s0\<lparr>que := ptr\<rparr>)
      in if length (list_write (event (que s))) \<noteq> 0
         then OSEventUnblockTasks_f LIST_WRITE s
         else s)"

definition QueueRead_end :: "'l word \<Rightarrow> ('l::len, 't) qsys \<Rightarrow> ('l, 't) qsys" where
  "QueueRead_end lock s =
     call SchedulerUnlock
       (call CRITICAL_EXIT (QueueRead_publish lock (call CRITICAL_ENTER s)))"

definition QueueRead ::
  "(('l::len, 't) qsys \<Rightarrow> ('l, 't) qsys) \<Rightarrow> ('l, 't) qsys \<Rightarrow>
   (bool_t \<times> byte list option) \<times> ('l, 't) qsys" where
  "QueueRead conc s0 =
     (case QueueRead_begin s0 of
        (None, s) \<Rightarrow> ((0, None), s)
      | (Some (pos_ptr, lock), s) \<Rightarrow>
          (let buff = memcpy_out (mem s) pos_ptr (unat (item_size (que s)));
               s = call MEMCPY s;
               s = conc s;
               s = QueueRead_end lock s
           in ((1, Some buff), s)))"

text \<open>\<^verbatim>\<open>QueueWrite\<close>, in the same three parts.  Its first critical section takes
  the scheduler lock before \<^verbatim>\<open>CRITICAL_EXIT\<close>.\<close>

definition QueueWrite_reserve ::
  "('l::len, 't) qsys \<Rightarrow> (addr \<times> 'l word) \<times> ('l, 't) qsys" where
  "QueueWrite_reserve s =
     (let ptr = que s;
          pos_ptr = tail_ptr ptr;
          ptr = ptr\<lparr>tail_ptr := tail_ptr ptr + uint (item_size ptr)\<rparr>;
          ptr = (if tail_ptr ptr > buff_end_ptr ptr
                 then ptr\<lparr>tail_ptr := buff_ptr ptr\<rparr> else ptr);
          lock = w_lock ptr;
          ptr = ptr\<lparr>w_lock := w_lock ptr + 1\<rparr>;
          ptr = ptr\<lparr>free := free ptr - 1\<rparr>
      in ((pos_ptr, lock), s\<lparr>que := ptr\<rparr>))"

definition QueueWrite_begin ::
  "('l::len, 't) qsys \<Rightarrow> (addr \<times> 'l word) option \<times> ('l, 't) qsys" where
  "QueueWrite_begin s0 =
     (let s = call CRITICAL_ENTER s0 in
      if free (que s) \<noteq> 0
      then (let (r, s) = QueueWrite_reserve s;
                s = call SchedulerLock s
            in (Some r, call CRITICAL_EXIT s))
      else (None, call CRITICAL_EXIT s))"

definition QueueWrite_publish :: "'l word \<Rightarrow> ('l::len, 't) qsys \<Rightarrow> ('l, 't) qsys" where
  "QueueWrite_publish lock s0 =
     (let ptr = que s0;
          ptr = (if lock = 0
                 then (ptr\<lparr>used := used ptr + w_lock ptr\<rparr>)\<lparr>w_lock := 0\<rparr>
                 else ptr);
          s = s0\<lparr>que := ptr\<rparr>
      in if length (list_read (event (que s))) \<noteq> 0
         then OSEventUnblockTasks_f LIST_READ s
         else s)"

definition QueueWrite_end :: "'l word \<Rightarrow> ('l::len, 't) qsys \<Rightarrow> ('l, 't) qsys" where
  "QueueWrite_end lock s =
     call SchedulerUnlock
       (call CRITICAL_EXIT (QueueWrite_publish lock (call CRITICAL_ENTER s)))"

definition QueueWrite_copy :: "addr \<Rightarrow> byte list \<Rightarrow> ('l::len, 't) qsys \<Rightarrow> ('l, 't) qsys" where
  "QueueWrite_copy pos_ptr buff s =
     call MEMCPY (s\<lparr>mem := memcpy_in (mem s) pos_ptr (unat (item_size (que s))) buff\<rparr>)"

definition QueueWrite ::
  "(('l::len, 't) qsys \<Rightarrow> ('l, 't) qsys) \<Rightarrow> byte list \<Rightarrow> ('l, 't) qsys \<Rightarrow>
   bool_t \<times> ('l, 't) qsys" where
  "QueueWrite conc buff s0 =
     (case QueueWrite_begin s0 of
        (None, s) \<Rightarrow> (0, s)
      | (Some (pos_ptr, lock), s) \<Rightarrow>
          (let s = QueueWrite_copy pos_ptr buff s;
               s = conc s;
               s = QueueWrite_end lock s
           in (1, s)))"

text \<open>\<^verbatim>\<open>QueuePendRead\<close> and \<^verbatim>\<open>QueuePendWrite\<close>; \<^verbatim>\<open>GetCurrentTask\<close> (not among
  the sources) returns the running task, \<open>current\<close>.\<close>

definition QueuePendRead :: "tick_t \<Rightarrow> ('l::len, 't) qsys \<Rightarrow> ('l, 't) qsys" where
  "QueuePendRead ticks_to_wait s0 =
     (if ticks_to_wait \<noteq> 0
      then (let s = call SchedulerLock s0;
                s = call INTERRUPTS_DISABLE s;
                s = (if used (que s) = 0
                     then (let s = call GetCurrentTask s;
                               task_ptr = current s;
                               s = OSEventPrePendTask_f LIST_READ task_ptr s;
                               s = call INTERRUPTS_ENABLE s
                           in OSEventPendTask_f LIST_READ task_ptr ticks_to_wait s)
                     else call INTERRUPTS_ENABLE s)
            in call SchedulerUnlock s)
      else s0)"

definition QueuePendWrite :: "tick_t \<Rightarrow> ('l::len, 't) qsys \<Rightarrow> ('l, 't) qsys" where
  "QueuePendWrite ticks_to_wait s0 =
     (if ticks_to_wait \<noteq> 0
      then (let s = call SchedulerLock s0;
                s = call INTERRUPTS_DISABLE s;
                s = (if free (que s) = 0
                     then (let s = call GetCurrentTask s;
                               task_ptr = current s;
                               s = OSEventPrePendTask_f LIST_WRITE task_ptr s;
                               s = call INTERRUPTS_ENABLE s
                           in OSEventPendTask_f LIST_WRITE task_ptr ticks_to_wait s)
                     else call INTERRUPTS_ENABLE s)
            in call SchedulerUnlock s)
      else s0)"

definition QueueReadPend ::
  "(('l::len, 't) qsys \<Rightarrow> ('l, 't) qsys) \<Rightarrow> tick_t \<Rightarrow> ('l, 't) qsys \<Rightarrow>
   (bool_t \<times> byte list option) \<times> ('l, 't) qsys" where
  "QueueReadPend conc ticks_to_wait s0 =
     (let (val, s) = QueueRead conc s0 in
      if fst val = 0 then (val, QueuePendRead ticks_to_wait s) else (val, s))"

definition QueueWritePend ::
  "(('l::len, 't) qsys \<Rightarrow> ('l, 't) qsys) \<Rightarrow> byte list \<Rightarrow> tick_t \<Rightarrow> ('l, 't) qsys \<Rightarrow>
   bool_t \<times> ('l, 't) qsys" where
  "QueueWritePend conc buff ticks_to_wait s0 =
     (let (val, s) = QueueWrite conc buff s0 in
      if val = 0 then (val, QueuePendWrite ticks_to_wait s) else (val, s))"

text \<open>The getters, each inside its own critical section.\<close>

definition QueueUsed :: "('l::len, 't) qsys \<Rightarrow> 'l word \<times> ('l, 't) qsys" where
  "QueueUsed s = (used (que s), call CRITICAL_EXIT (call CRITICAL_ENTER s))"

definition QueueFree :: "('l::len, 't) qsys \<Rightarrow> 'l word \<times> ('l, 't) qsys" where
  "QueueFree s = (free (que s), call CRITICAL_EXIT (call CRITICAL_ENTER s))"

definition QueueLength :: "('l::len, 't) qsys \<Rightarrow> 'l word \<times> ('l, 't) qsys" where
  "QueueLength s =
     (free (que s) + used (que s) + w_lock (que s) + r_lock (que s),
      call CRITICAL_EXIT (call CRITICAL_ENTER s))"

definition QueueItemSize :: "('l::len, 't) qsys \<Rightarrow> 'l word" where
  "QueueItemSize s = item_size (que s)"

definition QueueEmpty :: "('l::len, 't) qsys \<Rightarrow> bool_t \<times> ('l, 't) qsys" where
  "QueueEmpty s = (let (u, s) = QueueUsed s in (if u = 0 then 1 else 0, s))"

definition QueueFull :: "('l::len, 't) qsys \<Rightarrow> bool_t \<times> ('l, 't) qsys" where
  "QueueFull s = (let (f, s) = QueueFree s in (if f = 0 then 1 else 0, s))"

text \<open>
  Sequential use of the queue: a list of writes, and a number of reads, one after
  the other with nothing running in between.
\<close>

text \<open>The address of slot \<open>i\<close> of the buffer.\<close>

definition slot :: "('l::len, 't) qsys \<Rightarrow> nat \<Rightarrow> addr" where
  "slot s i = buff_ptr (que s) + int (i * unat (item_size (que s)))"

text \<open>
  An idle queue of capacity \<open>cap\<close> that holds \<open>items\<close>, oldest first, the oldest in
  slot \<open>hi\<close>: no operation is in flight, the counters and the two pointers agree
  with the items, and the slots from \<open>hi\<close> on (wrapping) contain them.
\<close>

definition queue_holds ::
  "nat \<Rightarrow> nat \<Rightarrow> byte list list \<Rightarrow> ('l::len, 't) qsys \<Rightarrow> bool" where
  "queue_holds cap hi items s \<longleftrightarrow>
     cap < 2 ^ LENGTH('l) \<and> hi \<le> cap - 1 \<and> length items \<le> cap \<and>
     unat (used (que s)) = length items \<and>
     unat (free (que s)) = cap - length items \<and>
     w_lock (que s) = 0 \<and> r_lock (que s) = 0 \<and>
     head_ptr (que s) = slot s hi \<and>
     tail_ptr (que s) = slot s ((hi + length items) mod cap) \<and>
     buff_end_ptr (que s) = buff_ptr (que s) + (int cap - 1) * int (unat (item_size (que s))) \<and>
     (\<forall>k \<in> {0..<length items}.
        memcpy_out (mem s) (slot s ((hi + k) mod cap)) (unat (item_size (que s))) = items ! k)"

text \<open>
  \<^verbatim>\<open>QueueInit\<close> is given a buffer of \<^verbatim>\<open>length\<close> items: there is at least one, and
  the index of the last one is within the range of the type it is computed in.
\<close>

definition index_fits :: "'l::len word \<Rightarrow> 'l word \<Rightarrow> bool" where
  "index_fits len itm_size \<longleftrightarrow>
     len \<noteq> 0 \<and>
     (unat len - 1) * unat itm_size <
       2 ^ (if LENGTH('l) < INT_BITS then INT_BITS - 1 else LENGTH('l))"

fun QueueWrite_all ::
  "byte list list \<Rightarrow> ('l::len, 't) qsys \<Rightarrow> bool_t list \<times> ('l, 't) qsys" where
  "QueueWrite_all [] s = ([], s)"
| "QueueWrite_all (x # xs) s =
     (let (v, s1) = QueueWrite (\<lambda>s. s) x s;
          (vs, s2) = QueueWrite_all xs s1
      in (v # vs, s2))"

fun QueueRead_times ::
  "nat \<Rightarrow> ('l::len, 't) qsys \<Rightarrow> (bool_t \<times> byte list option) list \<times> ('l, 't) qsys" where
  "QueueRead_times 0 s = ([], s)"
| "QueueRead_times (Suc n) s =
     (let (v, s1) = QueueRead (\<lambda>s. s) s;
          (vs, s2) = QueueRead_times n s1
      in (v # vs, s2))"


text \<open>A state to run the scenarios on: nothing initialised, the buffer at
  address 100.\<close>

definition example_sys :: "(8, nat) qsys" where
  "example_sys =
     \<lparr>que = \<lparr>item_size = 90, free = 90, used = 90, w_lock = 90, r_lock = 90,
             head_ptr = 90, tail_ptr = 90, buff_ptr = 90, buff_end_ptr = 90,
             event = \<lparr>list_read = [], list_write = []\<rparr>\<rparr>,
      mem = (\<lambda>a. 90), current = 0, calls = []\<rparr>"

text \<open>The same queue with capacity 2 and item size 1, after two writes: full.\<close>

definition example_full :: "(8, nat) qsys" where
  "example_full =
     snd (QueueWrite (\<lambda>s. s) [66]
       (snd (QueueWrite (\<lambda>s. s) [65] (QueueInit 100 2 1 example_sys))))"

subsection \<open>Queue: concurrent operations\<close>

text \<open>
  A call of \<^verbatim>\<open>QueueRead\<close> or \<^verbatim>\<open>QueueWrite\<close> leaves its first critical section
  with a slot reserved and the copy still to do; interrupts and other tasks may run
  queue operations before it enters its second critical section.  An operation in
  flight keeps its local variables \<^verbatim>\<open>pos_ptr\<close> and \<^verbatim>\<open>lock\<close> (a writer also the
  caller's buffer).
\<close>

datatype 'w inflight = Reading addr 'w | Writing addr 'w "byte list"


text \<open>
  One step is one critical section of one call: a failed attempt, the first half of
  a successful one, the copy and second half of any operation in flight (in any
  order, which covers the nesting of interrupts on the single stack), a pend, a
  getter, or a change of the running task.  Every state between two steps is a
  critical-section boundary.
\<close>

inductive qstep ::
  "('l::len, 't) qsys \<times> 'l word inflight list \<Rightarrow> ('l, 't) qsys \<times> 'l word inflight list \<Rightarrow> bool" where
  read_fail: "QueueRead_begin s = (None, s') \<Longrightarrow> qstep (s, fs) (s', fs)"
| read_begin: "QueueRead_begin s = (Some (pos_ptr, lock), s') \<Longrightarrow>
     qstep (s, fs) (s', Reading pos_ptr lock # fs)"
| read_end: "qstep (s, fs1 @ Reading pos_ptr lock # fs2)
     (QueueRead_end lock (call MEMCPY s), fs1 @ fs2)"
| write_fail: "QueueWrite_begin s = (None, s') \<Longrightarrow> qstep (s, fs) (s', fs)"
| write_begin: "QueueWrite_begin s = (Some (pos_ptr, lock), s') \<Longrightarrow>
     qstep (s, fs) (s', Writing pos_ptr lock buff # fs)"
| write_end: "qstep (s, fs1 @ Writing pos_ptr lock buff # fs2)
     (QueueWrite_end lock (QueueWrite_copy pos_ptr buff s), fs1 @ fs2)"
| pend_read: "qstep (s, fs) (QueuePendRead ticks_to_wait s, fs)"
| pend_write: "qstep (s, fs) (QueuePendWrite ticks_to_wait s, fs)"
| get_used: "qstep (s, fs) (snd (QueueUsed s), fs)"
| get_free: "qstep (s, fs) (snd (QueueFree s), fs)"
| get_length: "qstep (s, fs) (snd (QueueLength s), fs)"
| switch: "qstep (s, fs) (s\<lparr>current := tsk\<rparr>, fs)"

definition counters :: "('l::len, 't) qsys \<Rightarrow> nat" where
  "counters s = unat (used (que s)) + unat (free (que s)) +
                unat (w_lock (que s)) + unat (r_lock (que s))"


text \<open>A write to the example queue of capacity 2 that has left its first critical
  section and has not copied yet.\<close>

definition example_inflight :: "(8, nat) qsys" where
  "example_inflight = snd (QueueWrite_begin (QueueInit 100 2 1 example_sys))"


subsection \<open>Queue: blocking variants\<close>

text \<open>
  The reading of the blocking read under which it would, after a failed first
  attempt, pend, wake and attempt again, reporting the second attempt: \<open>wake\<close> is
  what happens to the system between the pend and the wake.  This definition follows
  the wording to be compared with the source's \<^verbatim>\<open>QueueReadPend\<close>; it is not the
  source.
\<close>

definition QueueReadPend_reattempt ::
  "(('l::len, 't) qsys \<Rightarrow> ('l, 't) qsys) \<Rightarrow> (('l, 't) qsys \<Rightarrow> ('l, 't) qsys) \<Rightarrow>
   tick_t \<Rightarrow> ('l, 't) qsys \<Rightarrow> (bool_t \<times> byte list option) \<times> ('l, 't) qsys" where
  "QueueReadPend_reattempt conc wake ticks_to_wait s0 =
     (let (val, s) = QueueRead conc s0 in
      if fst val = 0
      then QueueRead conc (wake (QueuePendRead ticks_to_wait s))
      else (val, s))"

section \<open>Kernel\<close>

text \<open>
  The kernel source (\<^verbatim>\<open>librertos.c\<close>) includes a header that is not among the
  sources.  What the code takes from it is a parameter of the model:
  \<^item> the configuration constants \<^verbatim>\<open>NUM_PRIORITIES\<close>, \<^verbatim>\<open>LOW_PRIORITY\<close>,
    \<^verbatim>\<open>HIGH_PRIORITY\<close> and \<^verbatim>\<open>KERNEL_MODE\<close> are the fields of a \<open>config\<close>;
  \<^item> \<^verbatim>\<open>tick_t\<close> and the type of a list's \<^verbatim>\<open>length\<close> are unsigned machine
    integers of unknown widths, \<open>'t word\<close> and \<open>'n word\<close>;
  \<^item> priorities and the loop index of the scheduler are \<^verbatim>\<open>int8_t\<close> in the source
    and integers here (a valid configuration keeps them within \<^verbatim>\<open>int8_t\<close>);
  \<^item> a task function pointer and its parameter are values of types \<open>'f\<close> and
    \<open>'p\<close>, and calling the function is the parameter \<open>exec\<close> of the scheduler;
  \<^item> the macro \<^verbatim>\<open>LIST_HEAD(list)\<close> is the list itself, cast to a node pointer;
  \<^item> \<^verbatim>\<open>CRITICAL_ENTER\<close> and \<^verbatim>\<open>CRITICAL_EXIT\<close> delimit what runs atomically; a
    model function is one such region (or a sequence of them) and does not record
    them.
\<close>

datatype kernel_mode = LIBRERTOS_COOPERATIVE | LIBRERTOS_PREEMPTIVE

record config =
  NUM_PRIORITIES :: nat
  LOW_PRIORITY :: int
  HIGH_PRIORITY :: int
  KERNEL_MODE :: kernel_mode

text \<open>A configuration is valid when the priorities index the array of ready lists
  and fit \<^verbatim>\<open>int8_t\<close>.\<close>

definition config_ok :: "config \<Rightarrow> bool" where
  "config_ok cfg \<longleftrightarrow>
     0 \<le> LOW_PRIORITY cfg \<and> LOW_PRIORITY cfg \<le> HIGH_PRIORITY cfg \<and>
     HIGH_PRIORITY cfg < int (NUM_PRIORITIES cfg) \<and> HIGH_PRIORITY cfg \<le> 127"

subsection \<open>Memory\<close>

text \<open>
  A \<^verbatim>\<open>struct node_t *\<close> is null, or points to a list (the list structure stands in
  for its own sentinel node: \<^verbatim>\<open>head\<close> is read as \<^verbatim>\<open>next\<close> and \<^verbatim>\<open>tail\<close> as
  \<^verbatim>\<open>prev\<close>), or points to the scheduler node embedded in the task at an address.
  A \<^verbatim>\<open>task_t *\<close> is null (\<open>None\<close>) or an address.  Dereferencing a null pointer, or
  a pointer to something that is not an object of the right kind, is a fault.
\<close>

datatype fault = NullPointer | InvalidPointer | AssertionFailed

datatype list_id = READY int | SUSPENDED

datatype ptr = NULL | PList list_id | PNode nat

type_synonym task_ptr = "nat option"

record node_t =
  "next" :: ptr
  prev :: ptr
  list :: "list_id option"
  owner :: task_ptr

record (overloaded) 'n list_t =
  head :: ptr
  tail :: ptr
  length' :: "'n word"

record ('f, 'p) task_t =
  func :: 'f
  param :: 'p
  priority :: int
  sched_node :: node_t

text \<open>The machine state: the fields of the global \<^verbatim>\<open>librertos\<close> (\<open>tick\<close>,
  \<open>current_task\<close>, \<open>tasks_ready\<close>, \<open>tasks_suspended\<close>), the task objects of the
  application by address, and the rest of the application's memory.\<close>

record (overloaded) ('t, 'n, 'f, 'p, 'u) kernel =
  tick :: "'t word"
  current_task :: task_ptr
  tasks_ready :: "'n list_t list"
  tasks_suspended :: "'n list_t"
  task_mem :: "nat \<Rightarrow> ('f, 'p) task_t option"
  user :: 'u

definition bindE :: "fault + 'a \<Rightarrow> ('a \<Rightarrow> fault + 'b) \<Rightarrow> fault + 'b" where
  "bindE m f = (case m of Inl e \<Rightarrow> Inl e | Inr x \<Rightarrow> f x)"

definition get_list_t ::
  "list_id \<Rightarrow> ('t::len, 'n::len, 'f, 'p, 'u) kernel \<Rightarrow> fault + 'n list_t" where
  "get_list_t l s =
     (case l of
        READY i \<Rightarrow>
          if 0 \<le> i \<and> i < int (length (tasks_ready s))
          then Inr (tasks_ready s ! nat i) else Inl InvalidPointer
      | SUSPENDED \<Rightarrow> Inr (tasks_suspended s))"

definition put_list_t ::
  "list_id \<Rightarrow> 'n list_t \<Rightarrow> ('t::len, 'n::len, 'f, 'p, 'u) kernel \<Rightarrow>
   fault + ('t, 'n, 'f, 'p, 'u) kernel" where
  "put_list_t l v s =
     (case l of
        READY i \<Rightarrow>
          if 0 \<le> i \<and> i < int (length (tasks_ready s))
          then Inr (s\<lparr>tasks_ready := (tasks_ready s)[nat i := v]\<rparr>) else Inl InvalidPointer
      | SUSPENDED \<Rightarrow> Inr (s\<lparr>tasks_suspended := v\<rparr>))"

definition get_task ::
  "task_ptr \<Rightarrow> ('t::len, 'n::len, 'f, 'p, 'u) kernel \<Rightarrow> fault + ('f, 'p) task_t" where
  "get_task task s =
     (case task of
        None \<Rightarrow> Inl NullPointer
      | Some a \<Rightarrow> (case task_mem s a of None \<Rightarrow> Inl InvalidPointer | Some t \<Rightarrow> Inr t))"

definition get_node ::
  "ptr \<Rightarrow> ('t::len, 'n::len, 'f, 'p, 'u) kernel \<Rightarrow> fault + node_t" where
  "get_node p s =
     (case p of
        NULL \<Rightarrow> Inl NullPointer
      | PList l \<Rightarrow> Inl InvalidPointer
      | PNode a \<Rightarrow> bindE (get_task (Some a) s) (\<lambda>t. Inr (sched_node t)))"

definition put_node ::
  "ptr \<Rightarrow> node_t \<Rightarrow> ('t::len, 'n::len, 'f, 'p, 'u) kernel \<Rightarrow>
   fault + ('t, 'n, 'f, 'p, 'u) kernel" where
  "put_node p v s =
     (case p of
        NULL \<Rightarrow> Inl NullPointer
      | PList l \<Rightarrow> Inl InvalidPointer
      | PNode a \<Rightarrow>
          bindE (get_task (Some a) s)
            (\<lambda>t. Inr (s\<lparr>task_mem := (task_mem s)(a \<mapsto> t\<lparr>sched_node := v\<rparr>)\<rparr>)))"

text \<open>\<^verbatim>\<open>p->next\<close> and \<^verbatim>\<open>p->prev\<close>, read and written, for a node pointer that
  may point to a list.\<close>

definition get_next ::
  "ptr \<Rightarrow> ('t::len, 'n::len, 'f, 'p, 'u) kernel \<Rightarrow> fault + ptr" where
  "get_next p s =
     (case p of
        PList l \<Rightarrow> bindE (get_list_t l s) (\<lambda>x. Inr (head x))
      | _ \<Rightarrow> bindE (get_node p s) (\<lambda>x. Inr (next x)))"

definition get_prev ::
  "ptr \<Rightarrow> ('t::len, 'n::len, 'f, 'p, 'u) kernel \<Rightarrow> fault + ptr" where
  "get_prev p s =
     (case p of
        PList l \<Rightarrow> bindE (get_list_t l s) (\<lambda>x. Inr (tail x))
      | _ \<Rightarrow> bindE (get_node p s) (\<lambda>x. Inr (prev x)))"

definition set_next ::
  "ptr \<Rightarrow> ptr \<Rightarrow> ('t::len, 'n::len, 'f, 'p, 'u) kernel \<Rightarrow>
   fault + ('t, 'n, 'f, 'p, 'u) kernel" where
  "set_next p v s =
     (case p of
        PList l \<Rightarrow> bindE (get_list_t l s) (\<lambda>x. put_list_t l (x\<lparr>head := v\<rparr>) s)
      | _ \<Rightarrow> bindE (get_node p s) (\<lambda>x. put_node p (x\<lparr>next := v\<rparr>) s))"

definition set_prev ::
  "ptr \<Rightarrow> ptr \<Rightarrow> ('t::len, 'n::len, 'f, 'p, 'u) kernel \<Rightarrow>
   fault + ('t, 'n, 'f, 'p, 'u) kernel" where
  "set_prev p v s =
     (case p of
        PList l \<Rightarrow> bindE (get_list_t l s) (\<lambda>x. put_list_t l (x\<lparr>tail := v\<rparr>) s)
      | _ \<Rightarrow> bindE (get_node p s) (\<lambda>x. put_node p (x\<lparr>prev := v\<rparr>) s))"

text \<open>\<^verbatim>\<open>node->list\<close>, read and written, and \<^verbatim>\<open>node->owner\<close>; a list structure
  has no such fields.\<close>

definition get_node_list ::
  "ptr \<Rightarrow> ('t::len, 'n::len, 'f, 'p, 'u) kernel \<Rightarrow> fault + list_id option" where
  "get_node_list p s = bindE (get_node p s) (\<lambda>x. Inr (list x))"

definition set_node_list ::
  "ptr \<Rightarrow> list_id option \<Rightarrow> ('t::len, 'n::len, 'f, 'p, 'u) kernel \<Rightarrow>
   fault + ('t, 'n, 'f, 'p, 'u) kernel" where
  "set_node_list p v s = bindE (get_node p s) (\<lambda>x. put_node p (x\<lparr>list := v\<rparr>) s)"

definition get_node_owner ::
  "ptr \<Rightarrow> ('t::len, 'n::len, 'f, 'p, 'u) kernel \<Rightarrow> fault + task_ptr" where
  "get_node_owner p s = bindE (get_node p s) (\<lambda>x. Inr (owner x))"

text \<open>\<^verbatim>\<open>list->length++\<close> and \<^verbatim>\<open>list->length--\<close>, for a list pointer that may be
  null.\<close>

definition length_incr ::
  "list_id option \<Rightarrow> ('t::len, 'n::len, 'f, 'p, 'u) kernel \<Rightarrow>
   fault + ('t, 'n, 'f, 'p, 'u) kernel" where
  "length_incr lp s =
     (case lp of
        None \<Rightarrow> Inl NullPointer
      | Some l \<Rightarrow> bindE (get_list_t l s) (\<lambda>x. put_list_t l (x\<lparr>length' := length' x + 1\<rparr>) s))"

definition length_decr ::
  "list_id option \<Rightarrow> ('t::len, 'n::len, 'f, 'p, 'u) kernel \<Rightarrow>
   fault + ('t, 'n, 'f, 'p, 'u) kernel" where
  "length_decr lp s =
     (case lp of
        None \<Rightarrow> Inl NullPointer
      | Some l \<Rightarrow> bindE (get_list_t l s) (\<lambda>x. put_list_t l (x\<lparr>length' := length' x - 1\<rparr>) s))"

subsection \<open>Lists\<close>

definition list_init :: "list_id \<Rightarrow> 'n::len list_t" where
  "list_init l = \<lparr>head = PList l, tail = PList l, length' = 0\<rparr>"

definition node_init :: "task_ptr \<Rightarrow> node_t" where
  "node_init ownr = \<lparr>next = NULL, prev = NULL, list = None, owner = ownr\<rparr>"

definition list_insert_after ::
  "list_id \<Rightarrow> ptr \<Rightarrow> ptr \<Rightarrow> ('t::len, 'n::len, 'f, 'p, 'u) kernel \<Rightarrow>
   fault + ('t, 'n, 'f, 'p, 'u) kernel" where
  "list_insert_after l pos node s0 =
     bindE (get_next pos s0) (\<lambda>pos_next.
     bindE (set_next node pos_next s0) (\<lambda>s.
     bindE (set_prev node pos s) (\<lambda>s.
     bindE (get_next pos s) (\<lambda>pos_next.
     bindE (set_prev pos_next node s) (\<lambda>s.
     bindE (set_next pos node s) (\<lambda>s.
     bindE (set_node_list node (Some l) s) (\<lambda>s.
     length_incr (Some l) s)))))))"

definition list_insert_before ::
  "list_id \<Rightarrow> ptr \<Rightarrow> ptr \<Rightarrow> ('t::len, 'n::len, 'f, 'p, 'u) kernel \<Rightarrow>
   fault + ('t, 'n, 'f, 'p, 'u) kernel" where
  "list_insert_before l pos node s =
     bindE (get_prev pos s) (\<lambda>pos_prev. list_insert_after l pos_prev node s)"

definition list_insert_first ::
  "list_id \<Rightarrow> ptr \<Rightarrow> ('t::len, 'n::len, 'f, 'p, 'u) kernel \<Rightarrow>
   fault + ('t, 'n, 'f, 'p, 'u) kernel" where
  "list_insert_first l node s = list_insert_after l (PList l) node s"

definition list_insert_last ::
  "list_id \<Rightarrow> ptr \<Rightarrow> ('t::len, 'n::len, 'f, 'p, 'u) kernel \<Rightarrow>
   fault + ('t, 'n, 'f, 'p, 'u) kernel" where
  "list_insert_last l node s =
     bindE (get_prev (PList l) s) (\<lambda>list_tail. list_insert_after l list_tail node s)"

definition list_remove ::
  "ptr \<Rightarrow> ('t::len, 'n::len, 'f, 'p, 'u) kernel \<Rightarrow>
   fault + ('t, 'n, 'f, 'p, 'u) kernel" where
  "list_remove node s0 =
     bindE (get_node_list node s0) (\<lambda>lst.
     bindE (get_next node s0) (\<lambda>node_next.
     bindE (get_prev node s0) (\<lambda>node_prev.
     bindE (set_prev node_next node_prev s0) (\<lambda>s.
     bindE (get_prev node s) (\<lambda>node_prev.
     bindE (get_next node s) (\<lambda>node_next.
     bindE (set_next node_prev node_next s) (\<lambda>s.
     bindE (set_next node NULL s) (\<lambda>s.
     bindE (set_prev node NULL s) (\<lambda>s.
     bindE (set_node_list node None s) (\<lambda>s.
     length_decr lst s))))))))))"

definition list_get_first ::
  "list_id \<Rightarrow> ('t::len, 'n::len, 'f, 'p, 'u) kernel \<Rightarrow> fault + ptr" where
  "list_get_first l s = bindE (get_list_t l s) (\<lambda>x. Inr (head x))"

definition list_get_last ::
  "list_id \<Rightarrow> ('t::len, 'n::len, 'f, 'p, 'u) kernel \<Rightarrow> fault + ptr" where
  "list_get_last l s = bindE (get_list_t l s) (\<lambda>x. Inr (tail x))"

definition list_empty ::
  "list_id \<Rightarrow> ('t::len, 'n::len, 'f, 'p, 'u) kernel \<Rightarrow> fault + bool" where
  "list_empty l s = bindE (get_list_t l s) (\<lambda>x. Inr (length' x = 0))"

subsection \<open>Kernel functions\<close>

text \<open>\<^verbatim>\<open>librertos_init\<close>: after the \<^verbatim>\<open>memset\<close>, every field of \<^verbatim>\<open>librertos\<close> is
  assigned; the loop initialises the ready list of each priority.\<close>

definition librertos_init ::
  "config \<Rightarrow> ('t::len, 'n::len, 'f, 'p, 'u) kernel \<Rightarrow> ('t, 'n, 'f, 'p, 'u) kernel" where
  "librertos_init cfg s =
     s\<lparr>tick := 0,
       current_task := None,
       tasks_ready := map (\<lambda>i. list_init (READY (int i))) [0..<NUM_PRIORITIES cfg],
       tasks_suspended := list_init SUSPENDED\<rparr>"

text \<open>\<^verbatim>\<open>librertos_create_task\<close>: the assertion, then the task object is written
  whole (\<^verbatim>\<open>memset\<close> and the assignments) and appended to its ready list.\<close>

definition librertos_create_task ::
  "config \<Rightarrow> int \<Rightarrow> nat \<Rightarrow> 'f \<Rightarrow> 'p \<Rightarrow> ('t::len, 'n::len, 'f, 'p, 'u) kernel \<Rightarrow>
   fault + ('t, 'n, 'f, 'p, 'u) kernel" where
  "librertos_create_task cfg prio task fn par s =
     (if \<not> (prio \<ge> LOW_PRIORITY cfg \<and> prio \<le> HIGH_PRIORITY cfg)
      then Inl AssertionFailed
      else
        (let s = s\<lparr>task_mem := (task_mem s)(task \<mapsto>
                   \<lparr>func = fn, param = par, priority = prio,
                    sched_node = node_init (Some task)\<rparr>)\<rparr>
         in list_insert_last (READY prio) (PNode task) s))"

text \<open>The address of the scheduler node of a task, \<^verbatim>\<open>&task->sched_node\<close>: for a null
  task pointer an address that is no object, null in the model.\<close>

definition sched_node_of :: "task_ptr \<Rightarrow> ptr" where
  "sched_node_of task = (case task of None \<Rightarrow> NULL | Some a \<Rightarrow> PNode a)"

text \<open>
  \<^verbatim>\<open>librertos_sched\<close>.  \<open>sched_loop\<close> is the \<^verbatim>\<open>for\<close> loop, from priority \<open>i\<close> down:
  it skips empty ready lists and, at the first non-empty one, rotates the list and
  sets \<^verbatim>\<open>current_task\<close>; this is the state in which the task function is called.
  \<open>sched_enter\<close> is the function up to that call; \<open>librertos_sched\<close> calls the task
  function (\<open>exec\<close>), restores \<^verbatim>\<open>current_task\<close> and returns.  The result names the
  task that was run, if any.
\<close>

function sched_loop ::
  "int \<Rightarrow> int \<Rightarrow> ('t::len, 'n::len, 'f, 'p, 'u) kernel \<Rightarrow>
   fault + (task_ptr \<times> ('t, 'n, 'f, 'p, 'u) kernel) option" where
  "sched_loop current_priority i s =
     (if i > current_priority
      then
        (case list_empty (READY i) s of
           Inl e \<Rightarrow> Inl e
         | Inr True \<Rightarrow> sched_loop current_priority (i - 1) s
         | Inr False \<Rightarrow>
             bindE (list_get_first (READY i) s) (\<lambda>node.
             bindE (get_node_owner node s) (\<lambda>task.
             bindE (list_remove node s) (\<lambda>s.
             bindE (list_insert_last (READY i) node s) (\<lambda>s.
             Inr (Some (task, s\<lparr>current_task := task\<rparr>)))))))
      else Inr None)"
  by pat_completeness auto
termination
  by (relation "measure (\<lambda>(current_priority, i, s). nat (i - current_priority))") auto

definition sched_enter ::
  "config \<Rightarrow> ('t::len, 'n::len, 'f, 'p, 'u) kernel \<Rightarrow>
   fault + (task_ptr \<times> ('t, 'n, 'f, 'p, 'u) kernel) option" where
  "sched_enter cfg s =
     bindE (case current_task s of
              None \<Rightarrow> Inr (- 1)
            | Some a \<Rightarrow> bindE (get_task (Some a) s) (\<lambda>t. Inr (priority t)))
       (\<lambda>current_priority.
          if KERNEL_MODE cfg = LIBRERTOS_COOPERATIVE \<and> current_priority \<ge> 0
          then Inr None
          else sched_loop current_priority (HIGH_PRIORITY cfg) s)"

definition run_task ::
  "('f \<Rightarrow> 'p \<Rightarrow> ('t::len, 'n::len, 'f, 'p, 'u) kernel \<Rightarrow> fault + ('t, 'n, 'f, 'p, 'u) kernel) \<Rightarrow>
   task_ptr \<Rightarrow> ('t, 'n, 'f, 'p, 'u) kernel \<Rightarrow> fault + ('t, 'n, 'f, 'p, 'u) kernel" where
  "run_task exec task s = bindE (get_task task s) (\<lambda>t. exec (func t) (param t) s)"

definition librertos_sched ::
  "config \<Rightarrow>
   ('f \<Rightarrow> 'p \<Rightarrow> ('t::len, 'n::len, 'f, 'p, 'u) kernel \<Rightarrow> fault + ('t, 'n, 'f, 'p, 'u) kernel) \<Rightarrow>
   ('t, 'n, 'f, 'p, 'u) kernel \<Rightarrow> fault + (task_ptr \<times> ('t, 'n, 'f, 'p, 'u) kernel)" where
  "librertos_sched cfg exec s =
     bindE (sched_enter cfg s) (\<lambda>r.
       case r of
         None \<Rightarrow> Inr (None, s)
       | Some (task, s1) \<Rightarrow>
           bindE (run_task exec task s1) (\<lambda>s2.
           Inr (task, s2\<lparr>current_task := current_task s\<rparr>)))"

definition librertos_tick_interrupt ::
  "('t::len, 'n::len, 'f, 'p, 'u) kernel \<Rightarrow> ('t, 'n, 'f, 'p, 'u) kernel" where
  "librertos_tick_interrupt s = s\<lparr>tick := tick s + 1\<rparr>"

definition get_tick :: "('t::len, 'n::len, 'f, 'p, 'u) kernel \<Rightarrow> 't word" where
  "get_tick s = tick s"

definition get_current_task :: "('t::len, 'n::len, 'f, 'p, 'u) kernel \<Rightarrow> task_ptr" where
  "get_current_task s = current_task s"

definition task_suspend ::
  "task_ptr \<Rightarrow> ('t::len, 'n::len, 'f, 'p, 'u) kernel \<Rightarrow>
   fault + ('t, 'n, 'f, 'p, 'u) kernel" where
  "task_suspend task0 s0 =
     (let task = (if task0 = None then current_task s0 else task0) in
      bindE (list_remove (sched_node_of task) s0) (\<lambda>s.
      list_insert_first SUSPENDED (sched_node_of task) s))"

definition task_resume ::
  "task_ptr \<Rightarrow> ('t::len, 'n::len, 'f, 'p, 'u) kernel \<Rightarrow>
   fault + ('t, 'n, 'f, 'p, 'u) kernel" where
  "task_resume task s0 =
     bindE (get_task task s0) (\<lambda>t. let list_ready = READY (priority t) in
       if list (sched_node t) \<noteq> Some list_ready
       then bindE (list_remove (sched_node_of task) s0) (\<lambda>s.
            list_insert_last list_ready (sched_node_of task) s)
       else Inr s0)"

subsection \<open>The kernel's data structures, abstractly\<close>

text \<open>
  Views of the memory: what \<^verbatim>\<open>p->next\<close> and \<^verbatim>\<open>p->prev\<close> read for each node
  pointer (\<open>None\<close> where the read faults), the \<^verbatim>\<open>list\<close> field of the scheduler
  node of each task (\<open>None\<close> where there is no task), the fields of a task that no
  list operation writes, and the \<^verbatim>\<open>length\<close> of each list.
\<close>

definition nextv :: "('t::len, 'n::len, 'f, 'p, 'u) kernel \<Rightarrow> ptr \<Rightarrow> ptr option" where
  "nextv s p = (case get_next p s of Inl e \<Rightarrow> None | Inr q \<Rightarrow> Some q)"

definition prevv :: "('t::len, 'n::len, 'f, 'p, 'u) kernel \<Rightarrow> ptr \<Rightarrow> ptr option" where
  "prevv s p = (case get_prev p s of Inl e \<Rightarrow> None | Inr q \<Rightarrow> Some q)"

definition listv :: "('t::len, 'n::len, 'f, 'p, 'u) kernel \<Rightarrow> nat \<Rightarrow> list_id option option" where
  "listv s a = map_option (\<lambda>t. list (sched_node t)) (task_mem s a)"

definition statv ::
  "('t::len, 'n::len, 'f, 'p, 'u) kernel \<Rightarrow> nat \<Rightarrow> (task_ptr \<times> int \<times> 'f \<times> 'p) option" where
  "statv s a = map_option (\<lambda>t. (owner (sched_node t), priority t, func t, param t)) (task_mem s a)"

definition lenv :: "('t::len, 'n::len, 'f, 'p, 'u) kernel \<Rightarrow> list_id \<Rightarrow> 'n word option" where
  "lenv s l = (case get_list_t l s of Inl e \<Rightarrow> None | Inr x \<Rightarrow> Some (length' x))"

text \<open>What the list operations leave alone.\<close>

definition same_rest ::
  "('t::len, 'n::len, 'f, 'p, 'u) kernel \<Rightarrow> ('t, 'n, 'f, 'p, 'u) kernel \<Rightarrow> bool" where
  "same_rest s s' \<longleftrightarrow>
     tick s' = tick s \<and> current_task s' = current_task s \<and> user s' = user s \<and>
     length (tasks_ready s') = length (tasks_ready s)"

text \<open>
  Two cells are linked when the first one's \<^verbatim>\<open>next\<close> is the second and the second
  one's \<^verbatim>\<open>prev\<close> is the first; a path links each cell of a sequence to the
  following one; the list \<open>l\<close> is a ring through the nodes of the tasks \<open>xs\<close> when
  the path from the list's sentinel through these nodes returns to the sentinel and
  no node occurs twice.
\<close>

definition links :: "(ptr \<Rightarrow> ptr option) \<Rightarrow> (ptr \<Rightarrow> ptr option) \<Rightarrow> ptr \<Rightarrow> ptr \<Rightarrow> bool" where
  "links nx pv a b \<longleftrightarrow> nx a = Some b \<and> pv b = Some a"

fun path :: "(ptr \<Rightarrow> ptr option) \<Rightarrow> (ptr \<Rightarrow> ptr option) \<Rightarrow> ptr list \<Rightarrow> bool" where
  "path nx pv [] = True"
| "path nx pv [x] = True"
| "path nx pv (x # y # r) = (links nx pv x y \<and> path nx pv (y # r))"

definition ring ::
  "(ptr \<Rightarrow> ptr option) \<Rightarrow> (ptr \<Rightarrow> ptr option) \<Rightarrow> list_id \<Rightarrow> nat list \<Rightarrow> bool" where
  "ring nx pv l xs \<longleftrightarrow> path nx pv (PList l # map PNode xs @ [PList l]) \<and> distinct xs"

text \<open>The lists that exist: the ready list of each priority below
  \<^verbatim>\<open>NUM_PRIORITIES\<close>, and the suspended list.\<close>

definition valid_list :: "config \<Rightarrow> list_id \<Rightarrow> bool" where
  "valid_list cfg l =
     (case l of READY i \<Rightarrow> 0 \<le> i \<and> i < int (NUM_PRIORITIES cfg) | SUSPENDED \<Rightarrow> True)"

text \<open>
  The kernel's data structures are well formed, with the tasks \<open>cont l\<close> on each list
  \<open>l\<close> in order: every list is a ring through its tasks' nodes and its \<^verbatim>\<open>length\<close>
  is their number (modulo the width of the field); a task is on the list its node's
  \<^verbatim>\<open>list\<close> field names and on no other; a node's owner is its task; priorities are
  within the configured range; and the tasks on the ready list of a priority have
  that priority.  \<open>kernel_inv\<close> adds that no task is detached from every list.
\<close>

definition kernel_abs ::
  "config \<Rightarrow> ('t::len, 'n::len, 'f, 'p, 'u) kernel \<Rightarrow> (list_id \<Rightarrow> nat list) \<Rightarrow> bool" where
  "kernel_abs cfg s cont \<longleftrightarrow>
     length (tasks_ready s) = NUM_PRIORITIES cfg \<and>
     (\<forall>l. valid_list cfg l \<longrightarrow>
        ring (nextv s) (prevv s) l (cont l) \<and>
        lenv s l = Some (of_nat (length (cont l)))) \<and>
     (\<forall>l. \<not> valid_list cfg l \<longrightarrow> cont l = []) \<and>
     (\<forall>a l. (a \<in> set (cont l)) = (listv s a = Some (Some l))) \<and>
     (\<forall>a. listv s a \<noteq> None \<longrightarrow>
        (\<exists>pr f p. statv s a = Some (Some a, pr, f, p) \<and>
           LOW_PRIORITY cfg \<le> pr \<and> pr \<le> HIGH_PRIORITY cfg)) \<and>
     (\<forall>a i. a \<in> set (cont (READY i)) \<longrightarrow> (\<exists>f p. statv s a = Some (Some a, i, f, p)))"

definition kernel_inv :: "config \<Rightarrow> ('t::len, 'n::len, 'f, 'p, 'u) kernel \<Rightarrow> bool" where
  "kernel_inv cfg s \<longleftrightarrow> (\<exists>cont. kernel_abs cfg s cont) \<and> (\<forall>a. listv s a \<noteq> Some None)"

text \<open>
  The states the kernel reaches: \<^verbatim>\<open>librertos_init\<close> on a memory without task
  objects, then any sequence of calls of the kernel's functions that return
  (\<^verbatim>\<open>librertos_create_task\<close> on storage that holds no task yet), from the
  application or from inside a running task function; \<open>r_enter\<close> is the state in
  which the scheduler calls a task function, \<open>r_sched\<close> the state in which the
  scheduler returns after the function has returned in a reachable state.
\<close>

inductive reachable ::
  "config \<Rightarrow>
   ('f \<Rightarrow> 'p \<Rightarrow> ('t::len, 'n::len, 'f, 'p, 'u) kernel \<Rightarrow> fault + ('t, 'n, 'f, 'p, 'u) kernel) \<Rightarrow>
   ('t, 'n, 'f, 'p, 'u) kernel \<Rightarrow> bool"
  for cfg exec where
  r_init: "task_mem s0 = (\<lambda>a. None) \<Longrightarrow> reachable cfg exec (librertos_init cfg s0)"
| r_create: "reachable cfg exec s \<Longrightarrow> task_mem s task = None \<Longrightarrow>
     librertos_create_task cfg prio task fn par s = Inr s' \<Longrightarrow> reachable cfg exec s'"
| r_suspend: "reachable cfg exec s \<Longrightarrow> task_suspend tp s = Inr s' \<Longrightarrow> reachable cfg exec s'"
| r_resume: "reachable cfg exec s \<Longrightarrow> task_resume tp s = Inr s' \<Longrightarrow> reachable cfg exec s'"
| r_tick: "reachable cfg exec s \<Longrightarrow> reachable cfg exec (librertos_tick_interrupt s)"
| r_user: "reachable cfg exec s \<Longrightarrow> reachable cfg exec (s\<lparr>user := u\<rparr>)"
| r_enter: "reachable cfg exec s \<Longrightarrow> sched_enter cfg s = Inr (Some (task, s1)) \<Longrightarrow>
     reachable cfg exec s1"
| r_sched: "reachable cfg exec s \<Longrightarrow> sched_enter cfg s = Inr (Some (task, s1)) \<Longrightarrow>
     run_task exec task s1 = Inr s2 \<Longrightarrow> reachable cfg exec s2 \<Longrightarrow>
     reachable cfg exec (s2\<lparr>current_task := current_task s\<rparr>)"

subsection \<open>Readings to compare the source with\<close>

text \<open>No ready list of a priority above \<open>current_priority\<close> holds a task: the state
  in which, by the wording "returns only when no strictly higher-priority ready work
  remains", a call of the scheduler would return.\<close>

definition no_higher_ready_work ::
  "config \<Rightarrow> int \<Rightarrow> ('t::len, 'n::len, 'f, 'p, 'u) kernel \<Rightarrow> bool" where
  "no_higher_ready_work cfg current_priority s \<longleftrightarrow>
     (\<forall>j \<in> {current_priority + 1 .. HIGH_PRIORITY cfg}. list_empty (READY j) s = Inr True)"

text \<open>The priority of the task that a call of the scheduler interrupts: \<open>- 1\<close> when
  no task is running, as in \<^verbatim>\<open>librertos_sched\<close>; undefined when \<^verbatim>\<open>current_task\<close>
  points to no task.\<close>

definition interrupted_priority :: "('t::len, 'n::len, 'f, 'p, 'u) kernel \<Rightarrow> int option" where
  "interrupted_priority s =
     (case current_task s of
        None \<Rightarrow> Some (- 1)
      | Some c \<Rightarrow> map_option priority (task_mem s c))"

subsection \<open>Pending on a queue\<close>

text \<open>
  A task pends by calling \<^verbatim>\<open>QueuePendRead\<close>, which calls \<^verbatim>\<open>OSEventPendTask\<close>.  The
  queue is an object in the application's memory, here the first component of
  \<open>user\<close>; the second component is the table of the wake deadlines of the tasks
  (the task structure that \<^verbatim>\<open>librertos.c\<close> uses shows no field for them).
\<close>

text \<open>Modelled from the spec: the kernel's side of \<^verbatim>\<open>OSEventPendTask\<close> (absent from
  the sources), "Sets the task's wake deadline to \<^verbatim>\<open>tick + ticks_to_wait\<close> unless
  \<^verbatim>\<open>ticks_to_wait == MAX_DELAY\<close>, in which case the task waits indefinitely.  Removes
  the task's scheduler node from its ready list."  The insertion into the wait list
  is \<open>OSEventPendTask_f\<close>.\<close>

definition OSEventPendTask_k ::
  "nat \<Rightarrow> nat \<Rightarrow> tick_t \<Rightarrow>
   ('t::len, 'n::len, 'f, 'p, ('l::len, nat) qsys \<times> (nat \<Rightarrow> 't word option)) kernel \<Rightarrow>
   fault + ('t, 'n, 'f, 'p, ('l, nat) qsys \<times> (nat \<Rightarrow> 't word option)) kernel" where
  "OSEventPendTask_k max_delay task ticks_to_wait s =
     bindE (list_remove (PNode task) s) (\<lambda>s1.
       Inr (s1\<lparr>user := (fst (user s1),
                 (snd (user s1))(task :=
                    if ticks_to_wait = max_delay then None
                    else Some (tick s1 + of_nat ticks_to_wait)))\<rparr>))"

text \<open>The running task calls \<^verbatim>\<open>QueuePendRead\<close> on the queue: the source function
  runs on the queue with \<^verbatim>\<open>GetCurrentTask\<close> returning \<^verbatim>\<open>current_task\<close>, and where
  it has called \<^verbatim>\<open>OSEventPendTask\<close> the kernel's side of that call follows.\<close>

definition task_QueuePendRead ::
  "nat \<Rightarrow> tick_t \<Rightarrow>
   ('t::len, 'n::len, 'f, 'p, ('l::len, nat) qsys \<times> (nat \<Rightarrow> 't word option)) kernel \<Rightarrow>
   fault + ('t, 'n, 'f, 'p, ('l, nat) qsys \<times> (nat \<Rightarrow> 't word option)) kernel" where
  "task_QueuePendRead max_delay ticks_to_wait s =
     (case current_task s of
        None \<Rightarrow> Inl NullPointer
      | Some c \<Rightarrow>
          (let q0 = (fst (user s))\<lparr>current := c\<rparr>;
               q = QueuePendRead ticks_to_wait q0;
               s1 = s\<lparr>user := (q, snd (user s))\<rparr>
           in if OSEventPendTask LIST_READ c ticks_to_wait
                   \<in> set (drop (length (calls q0)) (calls q))
              then OSEventPendTask_k max_delay c ticks_to_wait s1
              else Inr s1))"

text \<open>The pended tasks: those on the two wait lists of the queue.\<close>

definition pended_tasks ::
  "('t::len, 'n::len, 'f, 'p, ('l::len, nat) qsys \<times> (nat \<Rightarrow> 't word option)) kernel \<Rightarrow> nat list" where
  "pended_tasks s =
     list_read (event (que (fst (user s)))) @ list_write (event (que (fst (user s))))"

text \<open>
  The wording "moves every pended task whose wake deadline has been reached off
  its wait list and back onto the ready list of its priority", of a call that
  takes the state \<open>s\<close> to \<open>s'\<close>: every task that is on a wait list in \<open>s\<close> and whose
  wake deadline is the tick of \<open>s'\<close> is on no wait list in \<open>s'\<close> and on the ready
  list of its priority.  (A deadline that an earlier tick has passed is not asked
  for: the weakest reading of "reached".)
\<close>

definition tick_wakes_expired ::
  "('t::len, 'n::len, 'f, 'p, ('l::len, nat) qsys \<times> (nat \<Rightarrow> 't word option)) kernel \<Rightarrow>
   ('t, 'n, 'f, 'p, ('l, nat) qsys \<times> (nat \<Rightarrow> 't word option)) kernel \<Rightarrow> bool" where
  "tick_wakes_expired s s' \<longleftrightarrow>
     (\<forall>a \<in> set (pended_tasks s).
        snd (user s) a = Some (tick s') \<longrightarrow>
        a \<notin> set (pended_tasks s') \<and>
        (case task_mem s' a of
           None \<Rightarrow> False
         | Some t \<Rightarrow> list (sched_node t) = Some (READY (priority t))))"

subsection \<open>Example states\<close>

text \<open>
  Two priorities (0 and 1), 16-bit ticks, 8-bit list lengths; a task function
  appends its parameter to a log in the application's memory.  \<open>ex_blank\<close> is the
  memory before \<^verbatim>\<open>librertos_init\<close>; \<open>ex_one\<close> has one task (address 10, priority
  0); \<open>ex_two\<close> has a second one (address 11, priority 1); in \<open>ex_running\<close> the
  task at 10 is running when the task at 11 is created; \<open>ex_after\<close> is \<open>ex_two\<close>
  after one call of the scheduler; in \<open>ex_parked\<close> the only task is suspended.

  In the states with a queue, the application's memory holds a queue of length 4
  and item size 1, empty, and no wake deadline.  \<open>ex_reader\<close> has one task (address
  10, priority 0, parameter 1) whose function, \<open>ex_reader_exec\<close>, calls
  \<^verbatim>\<open>QueuePendRead\<close> with its parameter as \<^verbatim>\<open>ticks_to_wait\<close> (\<^verbatim>\<open>MAX_DELAY\<close> is 65535);
  \<open>ex_pended\<close> is \<open>ex_reader\<close> after one call of the scheduler.
\<close>

definition ex_cfg :: "kernel_mode \<Rightarrow> config" where
  "ex_cfg m = \<lparr>NUM_PRIORITIES = 2, LOW_PRIORITY = 0, HIGH_PRIORITY = 1, KERNEL_MODE = m\<rparr>"

definition ex_exec ::
  "nat \<Rightarrow> nat \<Rightarrow> (16, 8, nat, nat, nat list) kernel \<Rightarrow> fault + (16, 8, nat, nat, nat list) kernel" where
  "ex_exec f p s = Inr (s\<lparr>user := user s @ [p]\<rparr>)"

definition ex_blank :: "(16, 8, nat, nat, nat list) kernel" where
  "ex_blank =
     \<lparr>tick = 90, current_task = Some 90, tasks_ready = [],
      tasks_suspended = \<lparr>head = NULL, tail = NULL, length' = 90\<rparr>,
      task_mem = (\<lambda>a. None), user = []\<rparr>"

definition ex_one :: "kernel_mode \<Rightarrow> (16, 8, nat, nat, nat list) kernel" where
  "ex_one m = projr (librertos_create_task (ex_cfg m) 0 10 0 100 (librertos_init (ex_cfg m) ex_blank))"

definition ex_two :: "kernel_mode \<Rightarrow> (16, 8, nat, nat, nat list) kernel" where
  "ex_two m = projr (librertos_create_task (ex_cfg m) 1 11 1 101 (ex_one m))"

definition ex_entered :: "kernel_mode \<Rightarrow> (16, 8, nat, nat, nat list) kernel" where
  "ex_entered m = snd (the (projr (sched_enter (ex_cfg m) (ex_one m))))"

definition ex_running :: "kernel_mode \<Rightarrow> (16, 8, nat, nat, nat list) kernel" where
  "ex_running m = projr (librertos_create_task (ex_cfg m) 1 11 1 101 (ex_entered m))"

definition ex_after :: "(16, 8, nat, nat, nat list) kernel" where
  "ex_after =
     snd (projr (librertos_sched (ex_cfg LIBRERTOS_PREEMPTIVE) ex_exec
                   (ex_two LIBRERTOS_PREEMPTIVE)))"

definition ex_parked :: "(16, 8, nat, nat, nat list) kernel" where
  "ex_parked = projr (task_suspend (Some 10) (ex_one LIBRERTOS_PREEMPTIVE))"

definition ex_app_blank ::
  "(16, 8, nat, nat, (8, nat) qsys \<times> (nat \<Rightarrow> 16 word option)) kernel" where
  "ex_app_blank =
     \<lparr>tick = 90, current_task = Some 90, tasks_ready = [],
      tasks_suspended = \<lparr>head = NULL, tail = NULL, length' = 90\<rparr>,
      task_mem = (\<lambda>a. None),
      user = (QueueInit 100 4 1 example_sys, (\<lambda>a. None))\<rparr>"

definition ex_reader ::
  "(16, 8, nat, nat, (8, nat) qsys \<times> (nat \<Rightarrow> 16 word option)) kernel" where
  "ex_reader =
     projr (librertos_create_task (ex_cfg LIBRERTOS_PREEMPTIVE) 0 10 0 1
              (librertos_init (ex_cfg LIBRERTOS_PREEMPTIVE) ex_app_blank))"

definition ex_reader_exec ::
  "nat \<Rightarrow> nat \<Rightarrow> (16, 8, nat, nat, (8, nat) qsys \<times> (nat \<Rightarrow> 16 word option)) kernel \<Rightarrow>
   fault + (16, 8, nat, nat, (8, nat) qsys \<times> (nat \<Rightarrow> 16 word option)) kernel" where
  "ex_reader_exec f p s = task_QueuePendRead 65535 p s"

definition ex_pended ::
  "(16, 8, nat, nat, (8, nat) qsys \<times> (nat \<Rightarrow> 16 word option)) kernel" where
  "ex_pended =
     snd (projr (librertos_sched (ex_cfg LIBRERTOS_PREEMPTIVE) ex_reader_exec ex_reader))"

section \<open>Mutex: properties\<close>

lemma mutex_reachable_count: "mutex_reachable mtx \<Longrightarrow> count mtx = 0 \<or> count mtx = 1"
  by (induction rule: mutex_reachable.induct)
     (auto simp: mutex_init_def mutex_lock_def mutex_unlock_def)

lemma mutex_unlock_unlocked_idle:
  "count mtx = 0 \<Longrightarrow> ((snd \<circ> mutex_unlock) ^^ n) mtx = mtx"
  by (induction n) (simp_all add: mutex_unlock_def)

text \<open>
  C8.  For every mutex (initialised, then used through lock and unlock only):
  \<^verbatim>\<open>mutex_lock\<close> succeeds exactly when count is 0 and then sets it to 1;
  \<^verbatim>\<open>mutex_unlock\<close> succeeds exactly when count is 1 and then clears it; a failed
  call changes nothing; lock followed by unlock on an unlocked mutex gives the
  mutex back as it was; every one of any number of repeated unlocks of an unlocked
  mutex fails; and \<^verbatim>\<open>mutex_islocked\<close> reports count, which is 0 or 1 throughout.
\<close>

theorem mutex_lock_unlock_protocol:
  assumes "mutex_reachable mtx"
  shows "((fst (mutex_lock mtx) = SUCCESS) = (count mtx = 0)) \<and>
         snd (mutex_lock mtx) = (if count mtx = 0 then mtx\<lparr>count := 1\<rparr> else mtx) \<and>
         ((fst (mutex_unlock mtx) = SUCCESS) = (count mtx = 1)) \<and>
         snd (mutex_unlock mtx) = (if count mtx = 1 then mtx\<lparr>count := 0\<rparr> else mtx) \<and>
         (count mtx = 0 \<longrightarrow>
            fst (mutex_lock mtx) = SUCCESS \<and>
            mutex_unlock (snd (mutex_lock mtx)) = (SUCCESS, mtx)) \<and>
         (count mtx = 0 \<longrightarrow>
            (\<forall>n. fst (mutex_unlock (((snd \<circ> mutex_unlock) ^^ n) mtx)) = FAIL)) \<and>
         mutex_islocked mtx = count mtx \<and> mutex_islocked mtx \<in> {0, 1} \<and>
         mutex_islocked (snd (mutex_lock mtx)) = 1 \<and>
         mutex_islocked (snd (mutex_unlock mtx)) = 0"
  using mutex_reachable_count [OF assms]
  by (auto simp: mutex_lock_def mutex_unlock_def mutex_islocked_def
                 mutex_unlock_unlocked_idle)

text \<open>The mutex scenario of the specification, on a freshly initialised mutex:
  lock succeeds and the mutex reads locked, a second lock fails, unlock succeeds, a
  second unlock fails and the mutex reads unlocked.\<close>

theorem mutex_lock_unlock_protocol_witness:
  "mutex_reachable (mutex_init \<lparr>count = 7\<rparr>) \<and>
   count (mutex_init \<lparr>count = 7\<rparr>) = 0 \<and>
   fst (mutex_lock (mutex_init \<lparr>count = 7\<rparr>)) = SUCCESS \<and>
   mutex_islocked (snd (mutex_lock (mutex_init \<lparr>count = 7\<rparr>))) = 1 \<and>
   fst (mutex_lock (snd (mutex_lock (mutex_init \<lparr>count = 7\<rparr>)))) = FAIL \<and>
   mutex_unlock (snd (mutex_lock (mutex_init \<lparr>count = 7\<rparr>))) =
     (SUCCESS, mutex_init \<lparr>count = 7\<rparr>) \<and>
   fst (mutex_unlock (mutex_init \<lparr>count = 7\<rparr>)) = FAIL \<and>
   mutex_islocked (mutex_init \<lparr>count = 7\<rparr>) = 0"
proof -
  have r: "mutex_reachable (mutex_init \<lparr>count = 7\<rparr>)"
    by (rule mr_init)
  have c: "count (mutex_init \<lparr>count = 7\<rparr>) = 0"
    by (simp add: mutex_init_def)
  show ?thesis
    using r c mutex_lock_unlock_protocol [OF r]
    by (simp add: mutex_init_def mutex_lock_def mutex_unlock_def mutex_islocked_def)
qed

subsection \<open>Queue: sequential behaviour\<close>

lemmas queue_defs =
  QueueWrite_def QueueRead_def QueueWrite_begin_def QueueRead_begin_def
  QueueWrite_reserve_def QueueRead_reserve_def QueueWrite_end_def QueueRead_end_def
  QueueWrite_publish_def QueueRead_publish_def QueueWrite_copy_def call_def
  OSEventUnblockTasks_f_def

lemma QueueWrite_full:
  "free (que s) = 0 \<Longrightarrow>
   QueueWrite conc buff s = (0, s\<lparr>calls := calls s @ [CRITICAL_ENTER, CRITICAL_EXIT]\<rparr>)"
  by (simp add: queue_defs)

lemma QueueRead_empty:
  "used (que s) = 0 \<Longrightarrow>
   QueueRead conc s = ((0, None), s\<lparr>calls := calls s @ [CRITICAL_ENTER, CRITICAL_EXIT]\<rparr>)"
  by (simp add: queue_defs)

lemma QueueWrite_idle:
  assumes "free (que s) \<noteq> 0" and "w_lock (que s) = 0"
  shows "fst (QueueWrite (\<lambda>s. s) x s) = 1"
    and "used (que (snd (QueueWrite (\<lambda>s. s) x s))) = used (que s) + 1"
    and "free (que (snd (QueueWrite (\<lambda>s. s) x s))) = free (que s) - 1"
    and "w_lock (que (snd (QueueWrite (\<lambda>s. s) x s))) = 0"
    and "r_lock (que (snd (QueueWrite (\<lambda>s. s) x s))) = r_lock (que s)"
    and "item_size (que (snd (QueueWrite (\<lambda>s. s) x s))) = item_size (que s)"
    and "head_ptr (que (snd (QueueWrite (\<lambda>s. s) x s))) = head_ptr (que s)"
    and "buff_ptr (que (snd (QueueWrite (\<lambda>s. s) x s))) = buff_ptr (que s)"
    and "buff_end_ptr (que (snd (QueueWrite (\<lambda>s. s) x s))) = buff_end_ptr (que s)"
    and "tail_ptr (que (snd (QueueWrite (\<lambda>s. s) x s))) =
           (if tail_ptr (que s) + uint (item_size (que s)) > buff_end_ptr (que s)
            then buff_ptr (que s) else tail_ptr (que s) + uint (item_size (que s)))"
    and "mem (snd (QueueWrite (\<lambda>s. s) x s)) =
           memcpy_in (mem s) (tail_ptr (que s)) (unat (item_size (que s))) x"
  using assms by (simp_all add: queue_defs Let_def)

lemma QueueRead_idle:
  assumes "used (que s) \<noteq> 0" and "r_lock (que s) = 0"
  shows "fst (QueueRead (\<lambda>s. s) s) =
           (1, Some (memcpy_out (mem s) (head_ptr (que s)) (unat (item_size (que s)))))"
    and "used (que (snd (QueueRead (\<lambda>s. s) s))) = used (que s) - 1"
    and "free (que (snd (QueueRead (\<lambda>s. s) s))) = free (que s) + 1"
    and "r_lock (que (snd (QueueRead (\<lambda>s. s) s))) = 0"
    and "w_lock (que (snd (QueueRead (\<lambda>s. s) s))) = w_lock (que s)"
    and "item_size (que (snd (QueueRead (\<lambda>s. s) s))) = item_size (que s)"
    and "tail_ptr (que (snd (QueueRead (\<lambda>s. s) s))) = tail_ptr (que s)"
    and "buff_ptr (que (snd (QueueRead (\<lambda>s. s) s))) = buff_ptr (que s)"
    and "buff_end_ptr (que (snd (QueueRead (\<lambda>s. s) s))) = buff_end_ptr (que s)"
    and "head_ptr (que (snd (QueueRead (\<lambda>s. s) s))) =
           (if head_ptr (que s) + uint (item_size (que s)) > buff_end_ptr (que s)
            then buff_ptr (que s) else head_ptr (que s) + uint (item_size (que s)))"
    and "mem (snd (QueueRead (\<lambda>s. s) s)) = mem s"
  using assms by (simp_all add: queue_defs Let_def)


lemma memcpy_out_in_same:
  "length x = n \<Longrightarrow> memcpy_out (memcpy_in m p n x) p n = x"
  by (auto simp: memcpy_out_def memcpy_in_def intro!: nth_equalityI)

lemma memcpy_out_in_disjoint:
  "p + int n \<le> p' \<or> p' + int n' \<le> p \<Longrightarrow>
   memcpy_out (memcpy_in m p n x) p' n' = memcpy_out m p' n'"
  by (auto simp: memcpy_out_def memcpy_in_def)

lemma slots_disjoint:
  fixes a c n :: nat and b :: int
  assumes "a \<noteq> c"
  shows "b + int (a * n) + int n \<le> b + int (c * n) \<or> b + int (c * n) + int n \<le> b + int (a * n)"
proof (cases "a < c")
  case True
  then have "Suc a * n \<le> c * n" by (intro mult_le_mono1) simp
  then have "int (Suc a * n) \<le> int (c * n)" by (simp only: of_nat_le_iff)
  then show ?thesis by (simp add: algebra_simps)
next
  case False
  with assms have "Suc c * n \<le> a * n" by (intro mult_le_mono1) simp
  then have "int (Suc c * n) \<le> int (a * n)" by (simp only: of_nat_le_iff)
  then show ?thesis by (simp add: algebra_simps)
qed

lemma mod_slots_distinct:
  fixes hi k n cap :: nat
  assumes "k < n" and "n < cap"
  shows "(hi + k) mod cap \<noteq> (hi + n) mod cap"
proof
  assume "(hi + k) mod cap = (hi + n) mod cap"
  then have "(hi + n) mod cap = (hi + k) mod cap" by simp
  then have "cap dvd (hi + n) - (hi + k)"
    using assms by (subst (asm) mod_eq_dvd_iff_nat) simp_all
  then have "cap dvd n - k" by simp
  then have "cap \<le> n - k" using assms by (intro dvd_imp_le) simp_all
  with assms show False by simp
qed


lemma next_slot:
  fixes i cap isz :: nat and b :: int
  assumes "i < cap"
  shows "(if b + int (i * isz) + int isz > b + (int cap - 1) * int isz
          then b else b + int (i * isz) + int isz) = b + int ((Suc i mod cap) * isz)"
proof (cases "isz = 0")
  case True
  then show ?thesis by simp
next
  case False
  show ?thesis
  proof (cases "Suc i = cap")
    case True
    then have c: "cap = Suc i" by simp
    show ?thesis unfolding c using False by simp
  next
    case F: False
    with assms have lt: "Suc i < cap" by simp
    then have "Suc i * isz \<le> (cap - 1) * isz" by (intro mult_le_mono1) simp
    then have "int (Suc i * isz) \<le> int ((cap - 1) * isz)" by (simp only: of_nat_le_iff)
    moreover have "int (cap - 1) = int cap - 1" using lt by simp
    ultimately have "b + int (i * isz) + int isz \<le> b + (int cap - 1) * int isz"
      by (simp add: algebra_simps)
    with lt show ?thesis by (simp add: algebra_simps)
  qed
qed

lemma queue_holds_write:
  assumes h: "queue_holds cap hi items s"
    and n: "length items < cap"
    and x: "length x = unat (item_size (que s))"
  shows "fst (QueueWrite (\<lambda>s. s) x s) = 1"
    and "queue_holds cap hi (items @ [x]) (snd (QueueWrite (\<lambda>s. s) x s))"
proof -
  let ?s' = "snd (QueueWrite (\<lambda>s. s) x s)"
  let ?isz = "unat (item_size (que s))"
  let ?ti = "(hi + length items) mod cap"
  from h have cap: "cap < 2 ^ LENGTH('a)" and hi: "hi \<le> cap - 1"
    and u: "unat (used (que s)) = length items"
    and f: "unat (free (que s)) = cap - length items"
    and wl: "w_lock (que s) = 0" and rl: "r_lock (que s) = 0"
    and hd: "head_ptr (que s) = slot s hi"
    and tl: "tail_ptr (que s) = slot s ?ti"
    and be: "buff_end_ptr (que s) = buff_ptr (que s) + (int cap - 1) * int ?isz"
    and ms: "\<forall>k \<in> {0..<length items}.
        memcpy_out (mem s) (slot s ((hi + k) mod cap)) ?isz = items ! k"
    by (simp_all add: queue_holds_def)
  from f n have fne: "free (que s) \<noteq> 0" by (auto simp flip: unat_gt_0)
  note W = QueueWrite_idle [OF fne wl, of x]
  show "fst (QueueWrite (\<lambda>s. s) x s) = 1" by (rule W(1))
  have sl: "slot ?s' i = slot s i" for i by (simp add: slot_def W)
  have ti: "?ti < cap" using n by simp
  have u': "unat (used (que ?s')) = length (items @ [x])"
  proof -
    have "unat (used (que s)) + unat (1 :: 'a word) < 2 ^ LENGTH('a)"
      using u n cap by simp
    then have "unat (used (que s) + 1) = unat (used (que s)) + unat (1 :: 'a word)"
      by (simp only: unat_add_lem)
    then show ?thesis by (simp add: W u)
  qed
  have f': "unat (free (que ?s')) = cap - length (items @ [x])"
    using fne f by (simp add: W unat_minus_one)
  have tl': "tail_ptr (que ?s') = slot ?s' ((hi + length (items @ [x])) mod cap)"
  proof -
    have "tail_ptr (que ?s') =
            (if slot s ?ti + int ?isz > buff_ptr (que s) + (int cap - 1) * int ?isz
             then buff_ptr (que s) else slot s ?ti + int ?isz)"
      by (simp only: W(10) tl be uint_nat)
    also have "\<dots> = buff_ptr (que s) + int ((Suc ?ti mod cap) * ?isz)"
      unfolding slot_def by (rule next_slot [OF ti])
    also have "Suc ?ti mod cap = (hi + length (items @ [x])) mod cap"
      by (simp add: mod_Suc_eq)
    finally show ?thesis by (simp add: slot_def W)
  qed
  have ms': "memcpy_out (mem ?s') (slot ?s' ((hi + k) mod cap)) (unat (item_size (que ?s')))
               = (items @ [x]) ! k" if "k \<in> {0..<length (items @ [x])}" for k
  proof (cases "k < length items")
    case True
    then have ne: "(hi + k) mod cap \<noteq> ?ti" using n by (intro mod_slots_distinct)
    have "memcpy_out (memcpy_in (mem s) (slot s ?ti) ?isz x) (slot s ((hi + k) mod cap)) ?isz
            = memcpy_out (mem s) (slot s ((hi + k) mod cap)) ?isz"
      unfolding slot_def
      by (rule memcpy_out_in_disjoint) (use slots_disjoint [OF ne] in blast)
    with True ms show ?thesis by (simp add: W sl tl nth_append)
  next
    case False
    with that have "k = length items" by simp
    then show ?thesis by (simp add: W sl tl memcpy_out_in_same [OF x])
  qed
  show "queue_holds cap hi (items @ [x]) ?s'"
    unfolding queue_holds_def
    using cap hi n u' f' tl' ms' by (simp add: W hd sl be rl)
qed


lemma queue_holds_read:
  assumes h: "queue_holds cap hi (x # items) s"
  shows "fst (QueueRead (\<lambda>s. s) s) = (1, Some x)"
    and "queue_holds cap (Suc hi mod cap) items (snd (QueueRead (\<lambda>s. s) s))"
proof -
  let ?s' = "snd (QueueRead (\<lambda>s. s) s)"
  let ?isz = "unat (item_size (que s))"
  from h have cap: "cap < 2 ^ LENGTH('a)" and hi: "hi \<le> cap - 1"
    and n: "Suc (length items) \<le> cap"
    and u: "unat (used (que s)) = Suc (length items)"
    and f: "unat (free (que s)) = cap - Suc (length items)"
    and wl: "w_lock (que s) = 0" and rl: "r_lock (que s) = 0"
    and hd: "head_ptr (que s) = slot s hi"
    and tl: "tail_ptr (que s) = slot s ((hi + Suc (length items)) mod cap)"
    and be: "buff_end_ptr (que s) = buff_ptr (que s) + (int cap - 1) * int ?isz"
    and ms: "\<forall>k \<in> {0..<Suc (length items)}.
        memcpy_out (mem s) (slot s ((hi + k) mod cap)) ?isz = (x # items) ! k"
    by (simp_all add: queue_holds_def)
  from u have une: "used (que s) \<noteq> 0" by (auto simp flip: unat_gt_0)
  note R = QueueRead_idle [OF une rl]
  from hi n have hic: "hi < cap" by simp
  have "memcpy_out (mem s) (slot s ((hi + 0) mod cap)) ?isz = (x # items) ! 0"
    using ms by (intro bspec [OF ms]) simp
  then have "memcpy_out (mem s) (head_ptr (que s)) ?isz = x"
    using hic by (simp add: hd)
  then show "fst (QueueRead (\<lambda>s. s) s) = (1, Some x)" by (simp add: R(1))
  have sl: "slot ?s' i = slot s i" for i by (simp add: slot_def R)
  have u': "unat (used (que ?s')) = length items"
    using une u by (simp add: R unat_minus_one)
  have f': "unat (free (que ?s')) = cap - length items"
  proof -
    have "unat (free (que s)) + unat (1 :: 'a word) < 2 ^ LENGTH('a)"
      using f n cap by simp
    then have "unat (free (que s) + 1) = unat (free (que s)) + unat (1 :: 'a word)"
      by (simp only: unat_add_lem)
    then show ?thesis using n by (simp add: R f)
  qed
  have hd': "head_ptr (que ?s') = slot ?s' (Suc hi mod cap)"
  proof -
    have "head_ptr (que ?s') =
            (if slot s hi + int ?isz > buff_ptr (que s) + (int cap - 1) * int ?isz
             then buff_ptr (que s) else slot s hi + int ?isz)"
      by (simp only: R(10) hd be uint_nat)
    also have "\<dots> = buff_ptr (que s) + int ((Suc hi mod cap) * ?isz)"
      unfolding slot_def by (rule next_slot [OF hic])
    finally show ?thesis by (simp add: slot_def R)
  qed
  have tl': "tail_ptr (que ?s') = slot ?s' ((Suc hi mod cap + length items) mod cap)"
    by (simp add: R tl sl mod_simps)
  have ms': "memcpy_out (mem ?s') (slot ?s' ((Suc hi mod cap + k) mod cap))
               (unat (item_size (que ?s'))) = items ! k" if "k \<in> {0..<length items}" for k
  proof -
    have "memcpy_out (mem s) (slot s ((hi + Suc k) mod cap)) ?isz = (x # items) ! Suc k"
      using that by (intro bspec [OF ms]) simp
    then show ?thesis by (simp add: R sl mod_simps)
  qed
  have hi': "Suc hi mod cap \<le> cap - 1"
    using hic by (metis Suc_pred' less_Suc_eq_le mod_less_divisor not_less_zero not_gr_zero)
  show "queue_holds cap (Suc hi mod cap) items ?s'"
    unfolding queue_holds_def
    using cap hi' n u' f' hd' tl' ms' by (simp add: R sl be wl)
qed

lemma queue_holds_write_all:
  assumes "queue_holds cap hi acc s"
    and "length acc + length items \<le> cap"
    and "\<forall>x \<in> set items. length x = unat (item_size (que s))"
  shows "fst (QueueWrite_all items s) = replicate (length items) 1 \<and>
         queue_holds cap hi (acc @ items) (snd (QueueWrite_all items s)) \<and>
         item_size (que (snd (QueueWrite_all items s))) = item_size (que s)"
  using assms
proof (induction items arbitrary: acc s)
  case Nil
  then show ?case by simp
next
  case (Cons x xs)
  let ?s1 = "snd (QueueWrite (\<lambda>s. s) x s)"
  from Cons.prems have lt: "length acc < cap" and x: "length x = unat (item_size (que s))"
    by simp_all
  note W = queue_holds_write [OF Cons.prems(1) lt x]
  from Cons.prems(1) lt have fne: "free (que s) \<noteq> 0"
    by (auto simp: queue_holds_def simp flip: unat_gt_0)
  from Cons.prems(1) have wl: "w_lock (que s) = 0" by (simp add: queue_holds_def)
  have isz: "item_size (que ?s1) = item_size (que s)"
    by (rule QueueWrite_idle(6) [OF fne wl])
  have "fst (QueueWrite_all xs ?s1) = replicate (length xs) 1 \<and>
        queue_holds cap hi ((acc @ [x]) @ xs) (snd (QueueWrite_all xs ?s1)) \<and>
        item_size (que (snd (QueueWrite_all xs ?s1))) = item_size (que ?s1)"
    using Cons.prems by (intro Cons.IH [OF W(2)]) (simp_all add: isz)
  with W(1) isz show ?case
    by (simp add: split_beta Let_def)
qed

lemma queue_holds_read_times:
  assumes "queue_holds cap hi items s"
  shows "fst (QueueRead_times (length items) s) = map (\<lambda>x. (1, Some x)) items \<and>
         (\<exists>hi'. queue_holds cap hi' [] (snd (QueueRead_times (length items) s)))"
  using assms
proof (induction items arbitrary: hi s)
  case Nil
  then show ?case by auto
next
  case (Cons x xs)
  note R = queue_holds_read [OF Cons.prems]
  from Cons.IH [OF R(2)] R(1) show ?case
    by (simp add: split_beta Let_def)
qed

lemma queue_holds_empty_read:
  assumes "queue_holds cap hi [] s"
  shows "QueueRead conc s = ((0, None), s\<lparr>calls := calls s @ [CRITICAL_ENTER, CRITICAL_EXIT]\<rparr>)"
proof -
  from assms have "unat (used (que s)) = 0" by (simp add: queue_holds_def)
  then have "used (que s) = 0" by (simp only: unat_0_iff)
  then show ?thesis by (rule QueueRead_empty)
qed

text \<open>Where the index fits, it is the product of the numbers; where it does not,
  the end pointer is not that of the last item: with a \<^verbatim>\<open>len_t\<close> of 32 bits, length
  \<open>2 ^ 31 + 1\<close> and item size 2 the end pointer is the buffer's start.\<close>

lemma last_item_index_fits:
  fixes len :: "'l::len word"
  assumes "index_fits len isz"
  shows "last_item_index len isz = (int (unat len) - 1) * int (unat isz)"
proof -
  from assms have n0: "len \<noteq> 0"
    and b: "(unat len - 1) * unat isz <
       2 ^ (if LENGTH('l) < INT_BITS then INT_BITS - 1 else LENGTH('l))"
    by (simp_all add: index_fits_def)
  from n0 have pos: "1 \<le> unat len" by (simp add: unat_gt_0 Suc_le_eq)
  have ul: "uint len = int (unat len)" and ui: "uint isz = int (unat isz)" by simp_all
  have e: "(int (unat len) - 1) * int (unat isz) = int ((unat len - 1) * unat isz)"
    using pos by (simp add: of_nat_diff)
  show ?thesis
  proof (cases "LENGTH('l) < INT_BITS")
    case True
    with b have "(unat len - 1) * unat isz < 2 ^ (INT_BITS - 1)" by simp
    then have "int ((unat len - 1) * unat isz) < int (2 ^ (INT_BITS - 1))"
      by (simp only: of_nat_less_iff)
    then have "int ((unat len - 1) * unat isz) < 2 ^ (INT_BITS - 1)" by simp
    moreover have "- (2 ^ (INT_BITS - 1)) \<le> int ((unat len - 1) * unat isz)"
      by (rule order_trans [of _ 0]) simp_all
    ultimately have "signed_take_bit (INT_BITS - 1) (int ((unat len - 1) * unat isz))
        = int ((unat len - 1) * unat isz)"
      by (simp only: signed_take_bit_int_eq_self_iff)
    then have "signed_take_bit (INT_BITS - 1) ((uint len - 1) * uint isz)
        = (int (unat len) - 1) * int (unat isz)"
      by (simp only: ul ui e)
    with True show ?thesis by (simp only: last_item_index_def if_True)
  next
    case False
    with b have lt: "(unat len - 1) * unat isz < 2 ^ LENGTH('l)" by simp
    have u1: "unat (len - 1) = unat len - 1" using n0 by (rule unat_minus_one)
    from lt have "unat (len - 1) * unat isz < 2 ^ LENGTH('l)" by (simp only: u1)
    then have "unat ((len - 1) * isz) = unat (len - 1) * unat isz"
      by (simp only: unat_mult_lem)
    then have "unat ((len - 1) * isz) = (unat len - 1) * unat isz" by (simp only: u1)
    then have "uint ((len - 1) * isz) = int ((unat len - 1) * unat isz)"
      by (simp only: uint_nat)
    then have "uint ((len - 1) * isz) = (int (unat len) - 1) * int (unat isz)"
      by (simp only: e)
    with False show ?thesis by (simp only: last_item_index_def if_False)
  qed
qed

lemma queue_holds_QueueInit:
  "index_fits len isz \<Longrightarrow> queue_holds (unat len) 0 [] (QueueInit b len isz s)"
  by (simp add: queue_holds_def QueueInit_def OSEventRwInit_f_def call_def slot_def
      last_item_index_fits)

lemma QueueInit_index_wraps:
  "buff_end_ptr (que (QueueInit 100 (2147483649 :: 32 word) 2 z)) = 100"
  by (simp add: QueueInit_def OSEventRwInit_f_def call_def last_item_index_def INT_BITS_def)

lemma example_index_fits: "index_fits (4 :: 8 word) 1" "index_fits (2 :: 8 word) 1"
  by (simp_all add: index_fits_def INT_BITS_def)

text \<open>
  C2.  On an idle, empty queue of capacity \<open>cap\<close> (whatever its head slot
  \<open>hi\<close>), for every list of \<open>N \<le> cap\<close> items of \<^verbatim>\<open>item_size\<close> bytes each: the
  \<open>N\<close> calls of \<^verbatim>\<open>QueueWrite\<close> all return 1, the following \<open>N\<close> calls of
  \<^verbatim>\<open>QueueRead\<close> return 1 and the items in the order they were written, and the
  next \<^verbatim>\<open>QueueRead\<close> returns 0.  A queue fresh from \<^verbatim>\<open>QueueInit\<close> with length
  \<open>len\<close> is idle and empty, with capacity \<open>unat len\<close>, provided \<open>len\<close> is not 0 and
  the index of the last item, \<^verbatim>\<open>(length - 1) * item_size\<close>, does not overflow the
  type it is computed in.
\<close>

theorem queue_fifo:
  fixes s :: "('l::len, 't) qsys" and z :: "('l, 't) qsys"
  assumes "queue_holds cap hi [] s"
    and "length items \<le> cap"
    and "\<forall>x \<in> set items. length x = unat (item_size (que s))"
  shows "(let (ws, s1) = QueueWrite_all items s;
              (rs, s2) = QueueRead_times (length items) s1
          in ws = replicate (length items) 1 \<and>
             rs = map (\<lambda>x. (1, Some x)) items \<and>
             fst (QueueRead (\<lambda>s. s) s2) = (0, None)) \<and>
         (index_fits len isz \<longrightarrow> queue_holds (unat len) 0 [] (QueueInit b len isz z))"
proof -
  let ?s1 = "snd (QueueWrite_all items s)"
  let ?s2 = "snd (QueueRead_times (length items) ?s1)"
  from queue_holds_write_all [OF assms(1), of items] assms(2,3)
  have w: "fst (QueueWrite_all items s) = replicate (length items) 1"
    and h1: "queue_holds cap hi items ?s1" by simp_all
  from queue_holds_read_times [OF h1]
  obtain hi' where r: "fst (QueueRead_times (length items) ?s1) = map (\<lambda>x. (1, Some x)) items"
    and h2: "queue_holds cap hi' [] ?s2" by blast
  from queue_holds_empty_read [OF h2] have "fst (QueueRead (\<lambda>s. s) ?s2) = (0, None)" by simp
  with w r show ?thesis by (simp add: split_beta queue_holds_QueueInit)
qed

text \<open>The FIFO scenario of the specification: length 4, item size 1, write 1, 2, 3;
  the reads yield 1, 2, 3 and the fourth read fails.\<close>

theorem queue_fifo_witness:
  "index_fits (4 :: 8 word) 1 \<and>
   queue_holds 4 0 [] (QueueInit 100 4 1 example_sys) \<and>
   fst (QueueWrite_all [[1], [2], [3]] (QueueInit 100 4 1 example_sys)) = [1, 1, 1] \<and>
   fst (QueueRead_times 3 (snd (QueueWrite_all [[1], [2], [3]] (QueueInit 100 4 1 example_sys))))
     = [(1, Some [1]), (1, Some [2]), (1, Some [3])] \<and>
   fst (QueueRead (\<lambda>s. s)
         (snd (QueueRead_times 3
                (snd (QueueWrite_all [[1], [2], [3]] (QueueInit 100 4 1 example_sys))))))
     = (0, None)"
proof -
  have h: "queue_holds 4 0 [] (QueueInit 100 4 1 example_sys)"
    using queue_holds_QueueInit [OF example_index_fits(1), of 100 example_sys] by simp
  have i: "\<forall>x \<in> set [[1], [2], [3 :: byte]].
             length x = unat (item_size (que (QueueInit 100 (4 :: 8 word) 1 example_sys)))"
    by (simp add: QueueInit_def OSEventRwInit_f_def call_def)
  show ?thesis
    using h example_index_fits(1) queue_fifo [OF h _ i, of 4 1 100 example_sys]
    by (simp add: split_beta eval_nat_numeral)
qed

text \<open>
  C6.  \<^verbatim>\<open>QueueWrite\<close> on a full queue (\<^verbatim>\<open>free == 0\<close>) and \<^verbatim>\<open>QueueRead\<close> on an
  empty queue (\<^verbatim>\<open>used == 0\<close>) return 0 and leave the whole queue structure (the
  counters, the locks, head, tail, the buffer bounds, the wait lists) and the buffer
  contents unchanged.  On a queue of length 2 (item size 1): writes A and B succeed,
  write C fails, a read yields A, write C then succeeds, reads yield B then C, and the
  next read fails.
\<close>

theorem queue_full_empty_fail:
  fixes s :: "('l::len, 't) qsys" and z :: "(8, 't) qsys"
  shows "(free (que s) = 0 \<longrightarrow>
            fst (QueueWrite conc buff s) = 0 \<and>
            que (snd (QueueWrite conc buff s)) = que s \<and>
            mem (snd (QueueWrite conc buff s)) = mem s) \<and>
         (used (que s) = 0 \<longrightarrow>
            fst (QueueRead conc s) = (0, None) \<and>
            que (snd (QueueRead conc s)) = que s \<and>
            mem (snd (QueueRead conc s)) = mem s) \<and>
         (let s = QueueInit b 2 1 z;
              (w1, s) = QueueWrite (\<lambda>s. s) [65] s;
              (w2, s) = QueueWrite (\<lambda>s. s) [66] s;
              (w3, s) = QueueWrite (\<lambda>s. s) [67] s;
              (r1, s) = QueueRead (\<lambda>s. s) s;
              (w4, s) = QueueWrite (\<lambda>s. s) [67] s;
              (r2, s) = QueueRead (\<lambda>s. s) s;
              (r3, s) = QueueRead (\<lambda>s. s) s;
              (r4, s) = QueueRead (\<lambda>s. s) s
          in (w1, w2, w3, r1, w4, r2, r3, r4) =
             (1, 1, 0, (1, Some [65]), 1, (1, Some [66]), (1, Some [67]), (0, None)))"
proof (intro conjI)
  show "free (que s) = 0 \<longrightarrow>
            fst (QueueWrite conc buff s) = 0 \<and>
            que (snd (QueueWrite conc buff s)) = que s \<and>
            mem (snd (QueueWrite conc buff s)) = mem s"
    by (simp add: QueueWrite_full)
  show "used (que s) = 0 \<longrightarrow>
            fst (QueueRead conc s) = (0, None) \<and>
            que (snd (QueueRead conc s)) = que s \<and>
            mem (snd (QueueRead conc s)) = mem s"
    by (simp add: QueueRead_empty)
  show "(let s = QueueInit b 2 1 z;
              (w1, s) = QueueWrite (\<lambda>s. s) [65] s;
              (w2, s) = QueueWrite (\<lambda>s. s) [66] s;
              (w3, s) = QueueWrite (\<lambda>s. s) [67] s;
              (r1, s) = QueueRead (\<lambda>s. s) s;
              (w4, s) = QueueWrite (\<lambda>s. s) [67] s;
              (r2, s) = QueueRead (\<lambda>s. s) s;
              (r3, s) = QueueRead (\<lambda>s. s) s;
              (r4, s) = QueueRead (\<lambda>s. s) s
          in (w1, w2, w3, r1, w4, r2, r3, r4) =
             (1, 1, 0, (1, Some [65]), 1, (1, Some [66]), (1, Some [67]), (0, None)))"
    by (simp add: queue_defs QueueInit_def last_item_index_def INT_BITS_def OSEventRwInit_f_def memcpy_out_def memcpy_in_def Let_def)
qed


text \<open>The two failing calls at concrete queues: a write to the full queue of
  capacity 2, a read from the freshly initialised one.\<close>

theorem queue_full_empty_fail_witness:
  "free (que example_full) = 0 \<and>
   fst (QueueWrite (\<lambda>s. s) [67] example_full) = 0 \<and>
   que (snd (QueueWrite (\<lambda>s. s) [67] example_full)) = que example_full \<and>
   mem (snd (QueueWrite (\<lambda>s. s) [67] example_full)) = mem example_full \<and>
   used (que (QueueInit 100 2 1 example_sys)) = 0 \<and>
   fst (QueueRead (\<lambda>s. s) (QueueInit 100 2 1 example_sys)) = (0, None) \<and>
   que (snd (QueueRead (\<lambda>s. s) (QueueInit 100 2 1 example_sys)))
     = que (QueueInit 100 2 1 example_sys) \<and>
   mem (snd (QueueRead (\<lambda>s. s) (QueueInit 100 2 1 example_sys)))
     = mem (QueueInit 100 2 1 example_sys)"
proof -
  have f: "free (que example_full) = 0"
    by (simp add: example_full_def example_sys_def queue_defs QueueInit_def last_item_index_def INT_BITS_def
        OSEventRwInit_f_def Let_def)
  have u: "used (que (QueueInit 100 2 1 example_sys)) = 0"
    by (simp add: QueueInit_def OSEventRwInit_f_def call_def)
  show ?thesis
    using f u
      queue_full_empty_fail [of example_full "\<lambda>s. s" "[67]"]
      queue_full_empty_fail [of "QueueInit 100 2 1 example_sys" "\<lambda>s. s"]
    by simp
qed

subsection \<open>Queue: the counters under concurrent operations\<close>

lemma unat_inc:
  fixes w :: "'a::len word"
  assumes "unat w < n" and "n < 2 ^ LENGTH('a)"
  shows "unat (w + 1) = Suc (unat w)"
proof -
  have "unat w + unat (1 :: 'a word) < 2 ^ LENGTH('a)" using assms by simp
  then have "unat (w + 1) = unat w + unat (1 :: 'a word)" by (simp only: unat_add_lem)
  then show ?thesis by simp
qed

lemma unat_sum:
  fixes v w :: "'a::len word"
  assumes "unat v + unat w \<le> n" and "n < 2 ^ LENGTH('a)"
  shows "unat (v + w) = unat v + unat w"
proof -
  have "unat v + unat w < 2 ^ LENGTH('a)" using assms by simp
  then show ?thesis by (simp only: unat_add_lem)
qed

lemma counters_call [simp]: "counters (call c s) = counters s"
  by (simp add: counters_def call_def)

lemma counters_unblock [simp]: "counters (OSEventUnblockTasks_f w s) = counters s"
  by (cases w) (simp_all add: counters_def OSEventUnblockTasks_f_def call_def)

lemma counters_QueueRead_begin:
  fixes s :: "('l::len, 't) qsys"
  assumes "counters s < 2 ^ LENGTH('l)"
  shows "counters (snd (QueueRead_begin s)) = counters s"
proof (cases "used (que s) = 0")
  case True
  then show ?thesis by (simp add: QueueRead_begin_def call_def counters_def)
next
  case False
  then have u: "0 < unat (used (que s))" by (simp add: unat_gt_0)
  have r: "unat (r_lock (que s) + 1) = Suc (unat (r_lock (que s)))"
    using u assms by (intro unat_inc [where n = "counters s"]) (simp_all add: counters_def)
  from False u r show ?thesis
    by (simp add: QueueRead_begin_def QueueRead_reserve_def call_def counters_def Let_def
        unat_minus_one)
qed

lemma counters_QueueWrite_begin:
  fixes s :: "('l::len, 't) qsys"
  assumes "counters s < 2 ^ LENGTH('l)"
  shows "counters (snd (QueueWrite_begin s)) = counters s"
proof (cases "free (que s) = 0")
  case True
  then show ?thesis by (simp add: QueueWrite_begin_def call_def counters_def)
next
  case False
  then have u: "0 < unat (free (que s))" by (simp add: unat_gt_0)
  have r: "unat (w_lock (que s) + 1) = Suc (unat (w_lock (que s)))"
    using u assms by (intro unat_inc [where n = "counters s"]) (simp_all add: counters_def)
  from False u r show ?thesis
    by (simp add: QueueWrite_begin_def QueueWrite_reserve_def call_def counters_def Let_def
        unat_minus_one)
qed

lemma counters_QueueRead_end:
  fixes s :: "('l::len, 't) qsys"
  assumes "counters s < 2 ^ LENGTH('l)"
  shows "counters (QueueRead_end lock s) = counters s"
proof -
  have "unat (free (que s) + r_lock (que s)) = unat (free (que s)) + unat (r_lock (que s))"
    using assms by (intro unat_sum [where n = "counters s"]) (simp_all add: counters_def)
  then have "counters (QueueRead_publish lock (call CRITICAL_ENTER s)) = counters s"
    by (simp add: QueueRead_publish_def Let_def) (simp add: counters_def call_def)
  then show ?thesis by (simp add: QueueRead_end_def)
qed

lemma counters_QueueWrite_end:
  fixes s :: "('l::len, 't) qsys"
  assumes "counters s < 2 ^ LENGTH('l)"
  shows "counters (QueueWrite_end lock s) = counters s"
proof -
  have "unat (used (que s) + w_lock (que s)) = unat (used (que s)) + unat (w_lock (que s))"
    using assms by (intro unat_sum [where n = "counters s"]) (simp_all add: counters_def)
  then have "counters (QueueWrite_publish lock (call CRITICAL_ENTER s)) = counters s"
    by (simp add: QueueWrite_publish_def Let_def) (simp add: counters_def call_def)
  then show ?thesis by (simp add: QueueWrite_end_def)
qed

lemma counters_QueueWrite_copy [simp]: "counters (QueueWrite_copy p b s) = counters s"
  by (simp add: QueueWrite_copy_def counters_def call_def)

lemma counters_pend [simp]:
  "counters (QueuePendRead t s) = counters s" "counters (QueuePendWrite t s) = counters s"
  by (simp_all add: QueuePendRead_def QueuePendWrite_def Let_def)
     (simp_all add: counters_def call_def OSEventPrePendTask_f_def OSEventPendTask_f_def)

lemma qstep_counters:
  fixes s :: "('l::len, 't) qsys"
  assumes "qstep (s, fs) (s', fs')" and c: "counters s < 2 ^ LENGTH('l)"
  shows "counters s' = counters s"
  using assms(1)
proof (cases rule: qstep.cases)
  case read_fail
  then show ?thesis using counters_QueueRead_begin [OF c] by simp
next
  case (read_begin pos_ptr lock)
  then show ?thesis using counters_QueueRead_begin [OF c] by simp
next
  case (read_end fs1 pos_ptr lock fs2)
  then show ?thesis using c by (simp add: counters_QueueRead_end)
next
  case write_fail
  then show ?thesis using counters_QueueWrite_begin [OF c] by simp
next
  case (write_begin pos_ptr lock buff)
  then show ?thesis using counters_QueueWrite_begin [OF c] by simp
next
  case (write_end fs1 pos_ptr lock buff fs2)
  then show ?thesis using c by (simp add: counters_QueueWrite_end)
next
  case (pend_read ticks_to_wait)
  then show ?thesis by simp
next
  case (pend_write ticks_to_wait)
  then show ?thesis by simp
next
  case get_used
  then show ?thesis by (simp add: QueueUsed_def)
next
  case get_free
  then show ?thesis by (simp add: QueueFree_def)
next
  case get_length
  then show ?thesis by (simp add: QueueLength_def)
next
  case (switch tsk)
  then show ?thesis by (simp add: counters_def)
qed

lemma qsteps_counters:
  fixes c :: "('l::len, 't) qsys \<times> 'l word inflight list"
  assumes "qstep\<^sup>*\<^sup>* c c'" and "counters (fst c) < 2 ^ LENGTH('l)"
  shows "counters (fst c') = counters (fst c)"
  using assms
proof (induction rule: rtranclp_induct)
  case base
  then show ?case by simp
next
  case (step y z)
  then show ?case using qstep_counters [of "fst y" "snd y" "fst z" "snd z"] by simp
qed

lemma counters_QueueInit: "counters (QueueInit b len isz z) = unat len"
  by (simp add: QueueInit_def OSEventRwInit_f_def counters_def call_def)

text \<open>A complete call, failed or not, with nothing running in between, is a
  sequence of steps.\<close>

lemma QueueWrite_qsteps: "qstep\<^sup>*\<^sup>* (s, fs) (snd (QueueWrite (\<lambda>s. s) buff s), fs)"
proof (cases "QueueWrite_begin s")
  case (Pair r s')
  show ?thesis
  proof (cases r)
    case None
    with Pair have "qstep (s, fs) (s', fs)" by (intro write_fail) simp
    with Pair None show ?thesis by (simp add: QueueWrite_def)
  next
    case (Some pl)
    obtain pos_ptr lock where pl: "pl = (pos_ptr, lock)" by (cases pl)
    from Pair Some pl have "qstep (s, fs) (s', Writing pos_ptr lock buff # fs)"
      by (intro write_begin) simp
    moreover have "qstep (s', [] @ Writing pos_ptr lock buff # fs)
        (QueueWrite_end lock (QueueWrite_copy pos_ptr buff s'), [] @ fs)"
      by (rule write_end)
    ultimately have "qstep\<^sup>*\<^sup>* (s, fs) (QueueWrite_end lock (QueueWrite_copy pos_ptr buff s'), fs)"
      by simp
    with Pair Some pl show ?thesis by (simp add: QueueWrite_def)
  qed
qed

lemma QueueRead_qsteps: "qstep\<^sup>*\<^sup>* (s, fs) (snd (QueueRead (\<lambda>s. s) s), fs)"
proof (cases "QueueRead_begin s")
  case (Pair r s')
  show ?thesis
  proof (cases r)
    case None
    with Pair have "qstep (s, fs) (s', fs)" by (intro read_fail) simp
    with Pair None show ?thesis by (simp add: QueueRead_def)
  next
    case (Some pl)
    obtain pos_ptr lock where pl: "pl = (pos_ptr, lock)" by (cases pl)
    from Pair Some pl have "qstep (s, fs) (s', Reading pos_ptr lock # fs)"
      by (intro read_begin) simp
    moreover have "qstep (s', [] @ Reading pos_ptr lock # fs)
        (QueueRead_end lock (call MEMCPY s'), [] @ fs)"
      by (rule read_end)
    ultimately have "qstep\<^sup>*\<^sup>* (s, fs) (QueueRead_end lock (call MEMCPY s'), fs)"
      by simp
    with Pair Some pl show ?thesis by (simp add: QueueRead_def Let_def)
  qed
qed

text \<open>
  C1.  After \<^verbatim>\<open>QueueInit\<close> with length \<open>len\<close>, whatever sequence of queue
  operations follows (reads and writes, failed or successful, completed or still in
  flight between their two critical sections, pends, getters), at every
  critical-section boundary \<^verbatim>\<open>used + free + w_lock + r_lock\<close> equals \<open>len\<close> (as
  numbers, without wrap-around), and \<^verbatim>\<open>QueueLength\<close> returns \<open>len\<close>.  The state \<open>z\<close>
  that \<^verbatim>\<open>QueueInit\<close> overwrites is arbitrary, so the statement holds from the most
  recent initialisation onwards.
\<close>

theorem queue_counters_invariant:
  fixes s :: "('l::len, 't) qsys"
  assumes "qstep\<^sup>*\<^sup>* (QueueInit b len isz z, []) (s, fs)"
  shows "unat (used (que s)) + unat (free (que s)) +
         unat (w_lock (que s)) + unat (r_lock (que s)) = unat len \<and>
         fst (QueueLength s) = len"
proof -
  have c: "counters s = unat len"
    using qsteps_counters [OF assms] by (simp add: counters_QueueInit)
  have "free (que s) + used (que s) + w_lock (que s) + r_lock (que s)
          = of_nat (unat (free (que s)) + unat (used (que s)) +
                    unat (w_lock (que s)) + unat (r_lock (que s)))"
    by simp
  also have "\<dots> = of_nat (unat len)" using c by (simp add: counters_def add.commute)
  finally show ?thesis using c by (simp add: QueueLength_def counters_def)
qed


text \<open>A state with a write in flight: one slot reserved, \<^verbatim>\<open>w_lock = 1\<close>,
  \<^verbatim>\<open>free = 1\<close>, and the sum is still 2.\<close>

theorem queue_counters_invariant_witness:
  "qstep\<^sup>*\<^sup>* (QueueInit 100 2 1 example_sys, []) (example_inflight, [Writing 100 0 [65]]) \<and>
   w_lock (que example_inflight) = 1 \<and> free (que example_inflight) = 1 \<and>
   unat (used (que example_inflight)) + unat (free (que example_inflight)) +
   unat (w_lock (que example_inflight)) + unat (r_lock (que example_inflight)) = 2 \<and>
   fst (QueueLength example_inflight) = 2"
proof -
  have b: "QueueWrite_begin (QueueInit 100 2 1 example_sys) = (Some (100, 0), example_inflight)"
    by (simp add: example_inflight_def example_sys_def QueueWrite_begin_def
        QueueWrite_reserve_def QueueInit_def last_item_index_def INT_BITS_def OSEventRwInit_f_def call_def Let_def)
  have r: "qstep\<^sup>*\<^sup>* (QueueInit 100 2 1 example_sys, [])
             (example_inflight, [Writing 100 0 [65]])"
    by (rule r_into_rtranclp) (rule write_begin [OF b])
  have w: "w_lock (que example_inflight) = 1 \<and> free (que example_inflight) = 1"
    by (simp add: example_inflight_def example_sys_def QueueWrite_begin_def
        QueueWrite_reserve_def QueueInit_def last_item_index_def INT_BITS_def OSEventRwInit_f_def call_def Let_def)
  show ?thesis
    using r w queue_counters_invariant [OF r] by simp
qed

subsection \<open>Queue: blocking variants make one attempt\<close>

text \<open>
  C7, as amended.  \<^verbatim>\<open>QueueReadPend\<close> and \<^verbatim>\<open>QueueWritePend\<close> make the non-blocking
  attempt exactly once, before pending, and return its result.  When the attempt
  fails they call \<^verbatim>\<open>QueuePendRead\<close> (\<^verbatim>\<open>QueuePendWrite\<close>), which for a non-zero
  timeout pends the running task, and return 0 at once: the call log shows the one
  failed attempt followed by the pend and nothing after it.  When the attempt
  succeeds the call is the non-blocking call.
\<close>

theorem QueueReadPend_single_attempt:
  fixes s :: "('l::len, 't) qsys"
  shows
   "fst (QueueReadPend conc ticks_to_wait s) = fst (QueueRead conc s) \<and>
    fst (QueueWritePend conc buff ticks_to_wait s) = fst (QueueWrite conc buff s) \<and>
    (used (que s) = 0 \<longrightarrow>
       fst (QueueReadPend conc ticks_to_wait s) = (0, None) \<and>
       snd (QueueReadPend conc ticks_to_wait s) =
         QueuePendRead ticks_to_wait (s\<lparr>calls := calls s @ [CRITICAL_ENTER, CRITICAL_EXIT]\<rparr>) \<and>
       calls (snd (QueueReadPend conc ticks_to_wait s)) =
         calls s @ [CRITICAL_ENTER, CRITICAL_EXIT] @
         (if ticks_to_wait \<noteq> 0
          then [SchedulerLock, INTERRUPTS_DISABLE, GetCurrentTask,
                OSEventPrePendTask LIST_READ (current s), INTERRUPTS_ENABLE,
                OSEventPendTask LIST_READ (current s) ticks_to_wait, SchedulerUnlock]
          else [])) \<and>
    (used (que s) \<noteq> 0 \<longrightarrow> QueueReadPend conc ticks_to_wait s = QueueRead conc s) \<and>
    (free (que s) = 0 \<longrightarrow>
       fst (QueueWritePend conc buff ticks_to_wait s) = 0 \<and>
       snd (QueueWritePend conc buff ticks_to_wait s) =
         QueuePendWrite ticks_to_wait (s\<lparr>calls := calls s @ [CRITICAL_ENTER, CRITICAL_EXIT]\<rparr>) \<and>
       calls (snd (QueueWritePend conc buff ticks_to_wait s)) =
         calls s @ [CRITICAL_ENTER, CRITICAL_EXIT] @
         (if ticks_to_wait \<noteq> 0
          then [SchedulerLock, INTERRUPTS_DISABLE, GetCurrentTask,
                OSEventPrePendTask LIST_WRITE (current s), INTERRUPTS_ENABLE,
                OSEventPendTask LIST_WRITE (current s) ticks_to_wait, SchedulerUnlock]
          else [])) \<and>
    (free (que s) \<noteq> 0 \<longrightarrow>
       QueueWritePend conc buff ticks_to_wait s = QueueWrite conc buff s)"
proof (intro conjI impI)
  show "fst (QueueReadPend conc ticks_to_wait s) = fst (QueueRead conc s)"
    by (simp add: QueueReadPend_def split_beta)
  show "fst (QueueWritePend conc buff ticks_to_wait s) = fst (QueueWrite conc buff s)"
    by (simp add: QueueWritePend_def split_beta)
next
  assume u: "used (que s) = 0"
  show "fst (QueueReadPend conc ticks_to_wait s) = (0, None)"
    by (simp add: QueueReadPend_def QueueRead_empty [OF u])
  show "snd (QueueReadPend conc ticks_to_wait s) =
         QueuePendRead ticks_to_wait (s\<lparr>calls := calls s @ [CRITICAL_ENTER, CRITICAL_EXIT]\<rparr>)"
    by (simp add: QueueReadPend_def QueueRead_empty [OF u])
  show "calls (snd (QueueReadPend conc ticks_to_wait s)) =
         calls s @ [CRITICAL_ENTER, CRITICAL_EXIT] @
         (if ticks_to_wait \<noteq> 0
          then [SchedulerLock, INTERRUPTS_DISABLE, GetCurrentTask,
                OSEventPrePendTask LIST_READ (current s), INTERRUPTS_ENABLE,
                OSEventPendTask LIST_READ (current s) ticks_to_wait, SchedulerUnlock]
          else [])"
    using u
    by (simp add: QueueReadPend_def QueueRead_empty [OF u] QueuePendRead_def call_def
        OSEventPrePendTask_f_def OSEventPendTask_f_def Let_def)
next
  assume "used (que s) \<noteq> 0"
  then show "QueueReadPend conc ticks_to_wait s = QueueRead conc s"
    by (simp add: QueueReadPend_def QueueRead_def QueueRead_begin_def call_def Let_def split_beta)
next
  assume f: "free (que s) = 0"
  show "fst (QueueWritePend conc buff ticks_to_wait s) = 0"
    by (simp add: QueueWritePend_def QueueWrite_full [OF f])
  show "snd (QueueWritePend conc buff ticks_to_wait s) =
         QueuePendWrite ticks_to_wait (s\<lparr>calls := calls s @ [CRITICAL_ENTER, CRITICAL_EXIT]\<rparr>)"
    by (simp add: QueueWritePend_def QueueWrite_full [OF f])
  show "calls (snd (QueueWritePend conc buff ticks_to_wait s)) =
         calls s @ [CRITICAL_ENTER, CRITICAL_EXIT] @
         (if ticks_to_wait \<noteq> 0
          then [SchedulerLock, INTERRUPTS_DISABLE, GetCurrentTask,
                OSEventPrePendTask LIST_WRITE (current s), INTERRUPTS_ENABLE,
                OSEventPendTask LIST_WRITE (current s) ticks_to_wait, SchedulerUnlock]
          else [])"
    using f
    by (simp add: QueueWritePend_def QueueWrite_full [OF f] QueuePendWrite_def call_def
        OSEventPrePendTask_f_def OSEventPendTask_f_def Let_def)
next
  assume "free (que s) \<noteq> 0"
  then show "QueueWritePend conc buff ticks_to_wait s = QueueWrite conc buff s"
    by (simp add: QueueWritePend_def QueueWrite_def QueueWrite_begin_def call_def Let_def split_beta)
qed

text \<open>On the empty example queue with a timeout of 5 ticks: result 0, the task
  pended, no second attempt; a write with space left does not pend.\<close>

theorem QueueReadPend_single_attempt_witness:
  "used (que (QueueInit 100 4 1 example_sys)) = 0 \<and>
   fst (QueueReadPend (\<lambda>s. s) 5 (QueueInit 100 4 1 example_sys)) = (0, None) \<and>
   calls (snd (QueueReadPend (\<lambda>s. s) 5 (QueueInit 100 4 1 example_sys))) =
     [OSEventRwInit, CRITICAL_ENTER, CRITICAL_EXIT,
      SchedulerLock, INTERRUPTS_DISABLE, GetCurrentTask,
      OSEventPrePendTask LIST_READ 0, INTERRUPTS_ENABLE,
      OSEventPendTask LIST_READ 0 5, SchedulerUnlock] \<and>
   free (que (QueueInit 100 4 1 example_sys)) \<noteq> 0 \<and>
   QueueWritePend (\<lambda>s. s) [7] 5 (QueueInit 100 4 1 example_sys) =
     QueueWrite (\<lambda>s. s) [7] (QueueInit 100 4 1 example_sys)"
proof -
  have u: "used (que (QueueInit 100 (4 :: 8 word) 1 example_sys)) = 0"
    and f: "free (que (QueueInit 100 (4 :: 8 word) 1 example_sys)) \<noteq> 0"
    and c: "calls (QueueInit 100 (4 :: 8 word) 1 example_sys) = [OSEventRwInit]"
    and t: "current (QueueInit 100 (4 :: 8 word) 1 example_sys) = 0"
    by (simp_all add: QueueInit_def OSEventRwInit_f_def call_def example_sys_def)
  note T = QueueReadPend_single_attempt [of "\<lambda>s. s" 5 "QueueInit 100 4 1 example_sys" "[7]"]
  from T u have a: "fst (QueueReadPend (\<lambda>s. s) 5 (QueueInit 100 4 1 example_sys)) = (0, None)"
    by blast
  from T u have "calls (snd (QueueReadPend (\<lambda>s. s) 5 (QueueInit 100 4 1 example_sys))) =
         calls (QueueInit 100 4 1 example_sys) @ [CRITICAL_ENTER, CRITICAL_EXIT] @
         (if (5 :: nat) \<noteq> 0
          then [SchedulerLock, INTERRUPTS_DISABLE, GetCurrentTask,
                OSEventPrePendTask LIST_READ (current (QueueInit 100 4 1 example_sys)),
                INTERRUPTS_ENABLE,
                OSEventPendTask LIST_READ (current (QueueInit 100 4 1 example_sys)) 5,
                SchedulerUnlock]
          else [])"
    by blast
  then have b: "calls (snd (QueueReadPend (\<lambda>s. s) 5 (QueueInit 100 4 1 example_sys))) =
     [OSEventRwInit, CRITICAL_ENTER, CRITICAL_EXIT,
      SchedulerLock, INTERRUPTS_DISABLE, GetCurrentTask,
      OSEventPrePendTask LIST_READ 0, INTERRUPTS_ENABLE,
      OSEventPendTask LIST_READ 0 5, SchedulerUnlock]"
    by (simp add: c t)
  from T f have d: "QueueWritePend (\<lambda>s. s) [7] 5 (QueueInit 100 4 1 example_sys) =
     QueueWrite (\<lambda>s. s) [7] (QueueInit 100 4 1 example_sys)"
    by blast
  from u f a b d show ?thesis by blast
qed

text \<open>
  C7 as stated fails.  The task pends on the empty queue; then the event fires
  (another task writes the byte 7).  A re-attempt would now return 1 and the byte;
  \<^verbatim>\<open>QueueReadPend\<close> had already returned 0.
\<close>

theorem QueueReadPend_reattempt_counterexample:
  "fst (QueueReadPend (\<lambda>s. s) 5 (QueueInit 100 4 1 example_sys)) = (0, None) \<and>
   fst (QueueReadPend_reattempt (\<lambda>s. s) (\<lambda>s. snd (QueueWrite (\<lambda>s. s) [7] s)) 5
          (QueueInit 100 4 1 example_sys)) = (1, Some [7]) \<and>
   fst (QueueReadPend (\<lambda>s. s) 5 (QueueInit 100 4 1 example_sys)) \<noteq>
   fst (QueueReadPend_reattempt (\<lambda>s. s) (\<lambda>s. snd (QueueWrite (\<lambda>s. s) [7] s)) 5
          (QueueInit 100 4 1 example_sys))"
  by (simp add: QueueReadPend_def QueueReadPend_reattempt_def QueuePendRead_def
      OSEventPrePendTask_f_def OSEventPendTask_f_def example_sys_def
      queue_defs QueueInit_def last_item_index_def INT_BITS_def OSEventRwInit_f_def memcpy_out_def memcpy_in_def Let_def)

subsection \<open>Queue: order of the scheduler lock\<close>

text \<open>
  C9.  The calls made by a successful \<^verbatim>\<open>QueueWrite\<close> and by the successful
  \<^verbatim>\<open>QueueRead\<close> that follows it, in order.  The write takes the scheduler lock
  inside its first critical section, before the copy; the read leaves its first
  critical section without it, copies, and takes the lock only inside its second
  critical section.
\<close>

theorem QueueRead_locks_scheduler_after_copy:
  "calls (snd (QueueWrite (\<lambda>s. s) [65] (QueueInit 100 4 1 example_sys))) =
     [OSEventRwInit,
      CRITICAL_ENTER, SchedulerLock, CRITICAL_EXIT, MEMCPY,
      CRITICAL_ENTER, CRITICAL_EXIT, SchedulerUnlock] \<and>
   calls (snd (QueueRead (\<lambda>s. s)
            (snd (QueueWrite (\<lambda>s. s) [65] (QueueInit 100 4 1 example_sys))))) =
     [OSEventRwInit,
      CRITICAL_ENTER, SchedulerLock, CRITICAL_EXIT, MEMCPY,
      CRITICAL_ENTER, CRITICAL_EXIT, SchedulerUnlock,
      CRITICAL_ENTER, CRITICAL_EXIT, MEMCPY,
      CRITICAL_ENTER, SchedulerLock, CRITICAL_EXIT, SchedulerUnlock]"
  by (simp add: example_sys_def queue_defs QueueInit_def last_item_index_def INT_BITS_def OSEventRwInit_f_def Let_def)

section \<open>Kernel: properties\<close>

subsection \<open>The list operations on the views\<close>

lemmas prim_defs = get_next_def get_prev_def set_next_def set_prev_def get_node_def put_node_def
  get_node_list_def set_node_list_def get_node_owner_def
  get_task_def get_list_t_def put_list_t_def bindE_def length_incr_def length_decr_def

lemmas view_defs = nextv_def prevv_def listv_def statv_def lenv_def same_rest_def

lemma get_next_nextv: "nextv s p = Some q \<Longrightarrow> get_next p s = Inr q"
  by (simp add: nextv_def split: sum.splits)

lemma get_prev_prevv: "prevv s p = Some q \<Longrightarrow> get_prev p s = Inr q"
  by (simp add: prevv_def split: sum.splits)

lemma nextv_prevv_valid: "(nextv s p = None) = (prevv s p = None)"
  by (auto simp: view_defs prim_defs split: ptr.splits list_id.splits option.splits if_splits)

lemma set_next_view:
  assumes "nextv s p \<noteq> None"
  shows "\<exists>s'. set_next p v s = Inr s' \<and> nextv s' = (nextv s)(p \<mapsto> v) \<and> prevv s' = prevv s \<and>
           listv s' = listv s \<and> statv s' = statv s \<and> lenv s' = lenv s \<and> same_rest s s'"
proof (cases p)
  case NULL
  with assms show ?thesis by (simp add: view_defs prim_defs)
next
  case (PList l)
  with assms show ?thesis
    apply (cases l)
    apply (auto simp: view_defs prim_defs fun_eq_iff nth_list_update split: ptr.splits list_id.splits option.splits if_splits)
    done
next
  case (PNode a)
  with assms show ?thesis
    by (auto simp: view_defs prim_defs fun_eq_iff split: ptr.splits list_id.splits option.splits if_splits)
qed

lemma set_prev_view:
  assumes "prevv s p \<noteq> None"
  shows "\<exists>s'. set_prev p v s = Inr s' \<and> prevv s' = (prevv s)(p \<mapsto> v) \<and> nextv s' = nextv s \<and>
           listv s' = listv s \<and> statv s' = statv s \<and> lenv s' = lenv s \<and> same_rest s s'"
proof (cases p)
  case NULL
  with assms show ?thesis by (simp add: view_defs prim_defs)
next
  case (PList l)
  with assms show ?thesis
    apply (cases l)
    apply (auto simp: view_defs prim_defs fun_eq_iff nth_list_update split: ptr.splits list_id.splits option.splits if_splits)
    done
next
  case (PNode a)
  with assms show ?thesis
    by (auto simp: view_defs prim_defs fun_eq_iff split: ptr.splits list_id.splits option.splits if_splits)
qed

lemma set_list_view:
  assumes "listv s a \<noteq> None"
  shows "\<exists>s'. set_node_list (PNode a) v s = Inr s' \<and>
           listv s' = (listv s)(a \<mapsto> v) \<and> nextv s' = nextv s \<and> prevv s' = prevv s \<and>
           statv s' = statv s \<and> lenv s' = lenv s \<and> same_rest s s'"
  using assms
  by (auto simp: view_defs prim_defs fun_eq_iff split: ptr.splits list_id.splits option.splits if_splits)

lemma length_incr_view:
  assumes "lenv s l = Some n"
  shows "\<exists>s'. length_incr (Some l) s = Inr s' \<and> lenv s' = (lenv s)(l \<mapsto> n + 1) \<and>
           nextv s' = nextv s \<and> prevv s' = prevv s \<and>
           listv s' = listv s \<and> statv s' = statv s \<and> same_rest s s'"
  using assms
  apply (cases l)
  apply (auto simp: view_defs prim_defs fun_eq_iff nth_list_update split: ptr.splits list_id.splits option.splits if_splits)
  done

lemma length_decr_view:
  assumes "lenv s l = Some n"
  shows "\<exists>s'. length_decr (Some l) s = Inr s' \<and> lenv s' = (lenv s)(l \<mapsto> n - 1) \<and>
           nextv s' = nextv s \<and> prevv s' = prevv s \<and>
           listv s' = listv s \<and> statv s' = statv s \<and> same_rest s s'"
  using assms
  apply (cases l)
  apply (auto simp: view_defs prim_defs fun_eq_iff nth_list_update split: ptr.splits list_id.splits option.splits if_splits)
  done

lemma same_rest_trans: "same_rest s s' \<Longrightarrow> same_rest s' s'' \<Longrightarrow> same_rest s s''"
  by (simp add: same_rest_def)

lemma same_rest_refl: "same_rest s s"
  by (simp add: same_rest_def)

lemma listv_nextv: "(listv s a = None) = (nextv s (PNode a) = None)"
  by (auto simp: view_defs prim_defs split: option.splits)

lemma get_node_listv:
  "listv s a = Some v \<Longrightarrow> get_node_list (PNode a) s = Inr v"
  by (auto simp: view_defs prim_defs split: option.splits)

lemma list_insert_after_view:
  assumes pos: "nextv s pos = Some b"
    and b: "prevv s b \<noteq> None"
    and node: "listv s c \<noteq> None"
    and len: "lenv s l = Some n"
  shows "\<exists>s'. list_insert_after l pos (PNode c) s = Inr s' \<and>
           nextv s' = (nextv s)(PNode c \<mapsto> b, pos \<mapsto> PNode c) \<and>
           prevv s' = (prevv s)(PNode c \<mapsto> pos, b \<mapsto> PNode c) \<and>
           listv s' = (listv s)(c \<mapsto> Some l) \<and>
           lenv s' = (lenv s)(l \<mapsto> n + 1) \<and>
           statv s' = statv s \<and> same_rest s s'"
proof -
  from node have nc: "nextv s (PNode c) \<noteq> None" by (simp add: listv_nextv)
  from set_next_view [OF nc, of b] obtain s1 where
    s1: "set_next (PNode c) b s = Inr s1" "nextv s1 = (nextv s)(PNode c \<mapsto> b)" "prevv s1 = prevv s"
      "listv s1 = listv s" "statv s1 = statv s" "lenv s1 = lenv s" "same_rest s s1"
    by blast
  have "prevv s1 (PNode c) \<noteq> None" using nc s1(3) by (simp add: nextv_prevv_valid)
  from set_prev_view [OF this, of pos] obtain s2 where
    s2: "set_prev (PNode c) pos s1 = Inr s2" "prevv s2 = (prevv s1)(PNode c \<mapsto> pos)"
      "nextv s2 = nextv s1" "listv s2 = listv s1" "statv s2 = statv s1" "lenv s2 = lenv s1"
      "same_rest s1 s2"
    by blast
  have g2: "get_next pos s2 = Inr b"
    using pos s1(2) s2(3) by (intro get_next_nextv) simp
  have "prevv s2 b \<noteq> None" using b s2(2) s1(3) by simp
  from set_prev_view [OF this, of "PNode c"] obtain s3 where
    s3: "set_prev b (PNode c) s2 = Inr s3" "prevv s3 = (prevv s2)(b \<mapsto> PNode c)"
      "nextv s3 = nextv s2" "listv s3 = listv s2" "statv s3 = statv s2" "lenv s3 = lenv s2"
      "same_rest s2 s3"
    by blast
  have "nextv s3 pos \<noteq> None" using pos s3(3) s2(3) s1(2) by simp
  from set_next_view [OF this, of "PNode c"] obtain s4 where
    s4: "set_next pos (PNode c) s3 = Inr s4" "nextv s4 = (nextv s3)(pos \<mapsto> PNode c)"
      "prevv s4 = prevv s3" "listv s4 = listv s3" "statv s4 = statv s3" "lenv s4 = lenv s3"
      "same_rest s3 s4"
    by blast
  have "listv s4 c \<noteq> None" using node s4(4) s3(4) s2(4) s1(4) by simp
  from set_list_view [OF this, of "Some l"] obtain s5 where
    s5: "set_node_list (PNode c) (Some l) s4 = Inr s5"
      "listv s5 = (listv s4)(c \<mapsto> Some l)" "nextv s5 = nextv s4" "prevv s5 = prevv s4"
      "statv s5 = statv s4" "lenv s5 = lenv s4" "same_rest s4 s5"
    by blast
  have "lenv s5 l = Some n" using len s5(6) s4(6) s3(6) s2(6) s1(6) by simp
  from length_incr_view [OF this] obtain s6 where
    s6: "length_incr (Some l) s5 = Inr s6" "lenv s6 = (lenv s5)(l \<mapsto> n + 1)"
      "nextv s6 = nextv s5" "prevv s6 = prevv s5" "listv s6 = listv s5" "statv s6 = statv s5"
      "same_rest s5 s6"
    by blast
  have run: "list_insert_after l pos (PNode c) s = Inr s6"
    unfolding list_insert_after_def
    using get_next_nextv [OF pos] s1(1) s2(1) g2 s3(1) s4(1) s5(1) s6(1)
    by (simp add: bindE_def)
  have rest: "same_rest s s6"
    using s1(7) s2(7) s3(7) s4(7) s5(7) s6(7) by (simp add: same_rest_def)
  show ?thesis
    using run rest s1 s2 s3 s4 s5 s6 by simp
qed

lemma list_remove_view:
  assumes lst: "listv s c = Some (Some l)"
    and nx: "nextv s (PNode c) = Some n"
    and pv: "prevv s (PNode c) = Some p"
    and n: "prevv s n \<noteq> None"
    and p: "nextv s p \<noteq> None"
    and len: "lenv s l = Some k"
  shows "\<exists>s'. list_remove (PNode c) s = Inr s' \<and>
           nextv s' = (nextv s)(p \<mapsto> n, PNode c \<mapsto> NULL) \<and>
           prevv s' = (prevv s)(n \<mapsto> p, PNode c \<mapsto> NULL) \<and>
           listv s' = (listv s)(c \<mapsto> None) \<and>
           lenv s' = (lenv s)(l \<mapsto> k - 1) \<and>
           statv s' = statv s \<and> same_rest s s'"
proof -
  from set_prev_view [OF n, of p] obtain s1 where
    s1: "set_prev n p s = Inr s1" "prevv s1 = (prevv s)(n \<mapsto> p)" "nextv s1 = nextv s"
      "listv s1 = listv s" "statv s1 = statv s" "lenv s1 = lenv s" "same_rest s s1"
    by blast
  have g1: "get_prev (PNode c) s1 = Inr p"
    using pv s1(2) by (intro get_prev_prevv) simp
  have g2: "get_next (PNode c) s1 = Inr n"
    using nx s1(3) by (intro get_next_nextv) simp
  have "nextv s1 p \<noteq> None" using p s1(3) by simp
  from set_next_view [OF this, of n] obtain s2 where
    s2: "set_next p n s1 = Inr s2" "nextv s2 = (nextv s1)(p \<mapsto> n)" "prevv s2 = prevv s1"
      "listv s2 = listv s1" "statv s2 = statv s1" "lenv s2 = lenv s1" "same_rest s1 s2"
    by blast
  have "nextv s2 (PNode c) \<noteq> None" using nx s2(2) s1(3) by simp
  from set_next_view [OF this, of NULL] obtain s3 where
    s3: "set_next (PNode c) NULL s2 = Inr s3" "nextv s3 = (nextv s2)(PNode c \<mapsto> NULL)"
      "prevv s3 = prevv s2" "listv s3 = listv s2" "statv s3 = statv s2" "lenv s3 = lenv s2"
      "same_rest s2 s3"
    by blast
  have "prevv s3 (PNode c) \<noteq> None" using pv s3(3) s2(3) s1(2) by simp
  from set_prev_view [OF this, of NULL] obtain s4 where
    s4: "set_prev (PNode c) NULL s3 = Inr s4" "prevv s4 = (prevv s3)(PNode c \<mapsto> NULL)"
      "nextv s4 = nextv s3" "listv s4 = listv s3" "statv s4 = statv s3" "lenv s4 = lenv s3"
      "same_rest s3 s4"
    by blast
  have "listv s4 c \<noteq> None" using lst s4(4) s3(4) s2(4) s1(4) by simp
  from set_list_view [OF this, of None] obtain s5 where
    s5: "set_node_list (PNode c) None s4 = Inr s5"
      "listv s5 = (listv s4)(c \<mapsto> None)" "nextv s5 = nextv s4" "prevv s5 = prevv s4"
      "statv s5 = statv s4" "lenv s5 = lenv s4" "same_rest s4 s5"
    by blast
  have "lenv s5 l = Some k" using len s5(6) s4(6) s3(6) s2(6) s1(6) by simp
  from length_decr_view [OF this] obtain s6 where
    s6: "length_decr (Some l) s5 = Inr s6" "lenv s6 = (lenv s5)(l \<mapsto> k - 1)"
      "nextv s6 = nextv s5" "prevv s6 = prevv s5" "listv s6 = listv s5" "statv s6 = statv s5"
      "same_rest s5 s6"
    by blast
  have run: "list_remove (PNode c) s = Inr s6"
    unfolding list_remove_def
    using get_node_listv [OF lst] get_next_nextv [OF nx] get_prev_prevv [OF pv]
      s1(1) g1 g2 s2(1) s3(1) s4(1) s5(1) s6(1)
    by (simp add: bindE_def)
  have rest: "same_rest s s6"
    using s1(7) s2(7) s3(7) s4(7) s5(7) s6(7) by (simp add: same_rest_def)
  show ?thesis
    using run rest s1 s2 s3 s4 s5 s6 by simp
qed

subsection \<open>Rings\<close>

lemma path_Cons: "path nx pv (x # cs) = ((cs \<noteq> [] \<longrightarrow> links nx pv x (hd cs)) \<and> path nx pv cs)"
  by (cases cs) simp_all

lemma path_append:
  "path nx pv (us @ vs) =
     (path nx pv us \<and> path nx pv vs \<and> (us \<noteq> [] \<and> vs \<noteq> [] \<longrightarrow> links nx pv (last us) (hd vs)))"
proof (induction us)
  case Nil
  then show ?case by simp
next
  case (Cons u us)
  show ?case
  proof (cases "us = []")
    case True
    then show ?thesis by (auto simp: path_Cons)
  next
    case False
    with Cons show ?thesis by (auto simp: path_Cons)
  qed
qed

lemma path_frame:
  assumes "\<forall>x \<in> set (butlast cs). nx' x = nx x" and "\<forall>y \<in> set (tl cs). pv' y = pv y"
  shows "path nx' pv' cs = path nx pv cs"
  using assms
proof (induction cs rule: path.induct)
  case (3 nx pv x y r)
  then show ?case by (simp add: links_def)
qed simp_all

lemma ring_frame:
  assumes "\<forall>x \<in> insert (PList l) (PNode ` set xs). nx' x = nx x \<and> pv' x = pv x"
  shows "ring nx' pv' l xs = ring nx pv l xs"
proof -
  have "path nx' pv' (PList l # map PNode xs @ [PList l]) =
        path nx pv (PList l # map PNode xs @ [PList l])"
    using assms by (intro path_frame) (auto dest: in_set_butlastD)
  then show ?thesis by (simp add: ring_def)
qed

lemma last_cells_cases:
  "last (PList l # map PNode ys) = PList l \<and> ys = [] \<or>
   last (PList l # map PNode ys) = PNode (last ys) \<and> ys \<noteq> []"
  by (cases ys rule: rev_cases) simp_all

lemma hd_cells_cases:
  "hd (map PNode zs @ [PList l]) = PList l \<and> zs = [] \<or>
   hd (map PNode zs @ [PList l]) = PNode (hd zs) \<and> zs \<noteq> []"
  by (cases zs) simp_all

lemma notin_tl: "x \<notin> set xs \<Longrightarrow> x \<notin> set (tl xs)"
  by (cases xs) auto

lemma notin_butlast: "x \<notin> set xs \<Longrightarrow> x \<notin> set (butlast xs)"
  by (auto dest: in_set_butlastD)

lemma path_appendD:
  assumes "path nx pv (us @ vs)" and "us \<noteq> []" and "vs \<noteq> []"
  shows "path nx pv us" and "path nx pv vs" and "links nx pv (last us) (hd vs)"
  using assms by (simp_all add: path_append)

lemma path_appendI:
  assumes "path nx pv us" and "path nx pv vs" and "links nx pv (last us) (hd vs)"
  shows "path nx pv (us @ vs)"
  using assms by (simp add: path_append)

lemma ring_split:
  assumes "ring nx pv l (ys @ zs)"
  shows "links nx pv (last (PList l # map PNode ys)) (hd (map PNode zs @ [PList l]))"
proof -
  from assms have "path nx pv ((PList l # map PNode ys) @ (map PNode zs @ [PList l]))"
    by (simp add: ring_def)
  then show ?thesis by (rule path_appendD(3)) simp_all
qed

lemma path_insert_cells:
  assumes p: "path nx pv (U @ V)" and U: "U \<noteq> []" and V: "V \<noteq> []"
    and a: "a = last U" and b: "b = hd V"
    and aU: "a \<notin> set (butlast U)" and aV: "a \<notin> set (butlast V)"
    and bU: "b \<notin> set (tl U)" and bV: "b \<notin> set (tl V)"
    and xU: "x \<notin> set U" and xV: "x \<notin> set V"
  shows "path (nx(x \<mapsto> b, a \<mapsto> x)) (pv(x \<mapsto> a, b \<mapsto> x)) (U @ [x] @ V)"
proof -
  let ?nx = "nx(x \<mapsto> b, a \<mapsto> x)" and ?pv = "pv(x \<mapsto> a, b \<mapsto> x)"
  note pd = path_appendD [OF p U V]
  have ax: "a \<noteq> x" using xU U a by auto
  have bx: "b \<noteq> x" using xV V b by auto
  note cs = notin_tl [OF xU] notin_tl [OF xV] notin_butlast [OF xU] notin_butlast [OF xV]
  have fU: "path ?nx ?pv U = path nx pv U"
    by (rule path_frame) (use aU bU cs in auto)
  have fV: "path ?nx ?pv V = path nx pv V"
    by (rule path_frame) (use aV bV cs in auto)
  have l1: "links ?nx ?pv (last U) (hd ([x] @ V))" using bx a by (simp add: links_def)
  have l2: "links ?nx ?pv (last [x]) (hd V)" using ax b by (simp add: links_def)
  have pU: "path ?nx ?pv U" using fU pd(1) by simp
  have pV: "path ?nx ?pv V" using fV pd(2) by simp
  have px: "path ?nx ?pv [x]" by simp
  have "path ?nx ?pv ([x] @ V)"
    by (rule path_appendI [OF px pV l2])
  then show ?thesis
    by (rule path_appendI [OF pU _ l1])
qed

lemma path_remove_cells:
  assumes p: "path nx pv (U @ [x] @ V)" and U: "U \<noteq> []" and V: "V \<noteq> []"
    and a: "a = last U" and b: "b = hd V"
    and aU: "a \<notin> set (butlast U)" and aV: "a \<notin> set (butlast V)"
    and bU: "b \<notin> set (tl U)" and bV: "b \<notin> set (tl V)"
    and xU: "x \<notin> set U" and xV: "x \<notin> set V"
  shows "links nx pv a x" and "links nx pv x b"
    and "path (nx(a \<mapsto> b, x \<mapsto> NULL)) (pv(b \<mapsto> a, x \<mapsto> NULL)) (U @ V)"
proof -
  let ?nx = "nx(a \<mapsto> b, x \<mapsto> NULL)" and ?pv = "pv(b \<mapsto> a, x \<mapsto> NULL)"
  have xV': "[x] @ V \<noteq> []" by simp
  note pd = path_appendD [OF p U xV']
  have x': "[x] \<noteq> []" by simp
  note pd2 = path_appendD [OF pd(2) x' V]
  from pd(3) show l1: "links nx pv a x" by (simp add: a)
  from pd2(3) show l2: "links nx pv x b" by (simp add: b)
  have ax: "a \<noteq> x" using xU U a by auto
  have bx: "b \<noteq> x" using xV V b by auto
  note cs = notin_tl [OF xU] notin_tl [OF xV] notin_butlast [OF xU] notin_butlast [OF xV]
  have fU: "path ?nx ?pv U = path nx pv U"
    by (rule path_frame) (use aU bU cs in auto)
  have fV: "path ?nx ?pv V = path nx pv V"
    by (rule path_frame) (use aV bV cs in auto)
  have l3: "links ?nx ?pv (last U) (hd V)" using ax bx a b by (simp add: links_def)
  have pU: "path ?nx ?pv U" using fU pd(1) by simp
  have pV: "path ?nx ?pv V" using fV pd2(2) by simp
  show "path ?nx ?pv (U @ V)"
    by (rule path_appendI [OF pU pV l3])
qed

lemma cells_side_conditions:
  assumes d: "distinct (ys @ zs)"
    and a: "a = last (PList l # map PNode ys)" and b: "b = hd (map PNode zs @ [PList l])"
  shows "a \<notin> set (butlast (PList l # map PNode ys))"
    and "a \<notin> set (butlast (map PNode zs @ [PList l]))"
    and "b \<notin> set (tl (PList l # map PNode ys))"
    and "b \<notin> set (tl (map PNode zs @ [PList l]))"
proof -
  show "a \<notin> set (butlast (PList l # map PNode ys))"
    using d by (cases ys rule: rev_cases) (auto simp: a butlast_append)
  show "a \<notin> set (butlast (map PNode zs @ [PList l]))"
    using d by (cases ys rule: rev_cases) (auto simp: a butlast_append)
  show "b \<notin> set (tl (PList l # map PNode ys))"
    using d by (cases zs) (auto simp: b)
  show "b \<notin> set (tl (map PNode zs @ [PList l]))"
    using d by (cases zs) (auto simp: b)
qed

lemma ring_insert:
  assumes r: "ring nx pv l (ys @ zs)" and c: "c \<notin> set (ys @ zs)"
    and a: "a = last (PList l # map PNode ys)" and b: "b = hd (map PNode zs @ [PList l])"
  shows "ring (nx(PNode c \<mapsto> b, a \<mapsto> PNode c)) (pv(PNode c \<mapsto> a, b \<mapsto> PNode c)) l (ys @ c # zs)"
proof -
  let ?U = "PList l # map PNode ys" and ?V = "map PNode zs @ [PList l]"
  from r have d: "distinct (ys @ zs)" and p: "path nx pv (?U @ ?V)" by (simp_all add: ring_def)
  have cU: "PNode c \<notin> set ?U" and cV: "PNode c \<notin> set ?V" using c by auto
  have U: "?U \<noteq> []" and V: "?V \<noteq> []" by simp_all
  note sc = cells_side_conditions [OF d a b]
  have "path (nx(PNode c \<mapsto> b, a \<mapsto> PNode c)) (pv(PNode c \<mapsto> a, b \<mapsto> PNode c))
          (?U @ [PNode c] @ ?V)"
    by (rule path_insert_cells [OF p U V a b sc(1) sc(2) sc(3) sc(4) cU cV])
  moreover have "distinct (ys @ c # zs)" using d c by simp
  ultimately show ?thesis by (simp add: ring_def)
qed

lemma ring_remove:
  assumes r: "ring nx pv l (ys @ c # zs)"
    and a: "a = last (PList l # map PNode ys)" and b: "b = hd (map PNode zs @ [PList l])"
  shows "nx (PNode c) = Some b" and "pv (PNode c) = Some a"
    and "nx a = Some (PNode c)" and "pv b = Some (PNode c)"
    and "ring (nx(a \<mapsto> b, PNode c \<mapsto> NULL)) (pv(b \<mapsto> a, PNode c \<mapsto> NULL)) l (ys @ zs)"
proof -
  let ?U = "PList l # map PNode ys" and ?V = "map PNode zs @ [PList l]"
  from r have d: "distinct (ys @ c # zs)" and p: "path nx pv (?U @ [PNode c] @ ?V)"
    by (simp_all add: ring_def)
  from d have d': "distinct (ys @ zs)" by simp
  have cU: "PNode c \<notin> set ?U" and cV: "PNode c \<notin> set ?V" using d by auto
  have U: "?U \<noteq> []" and V: "?V \<noteq> []" by simp_all
  note sc = cells_side_conditions [OF d' a b]
  note R = path_remove_cells [OF p U V a b sc(1) sc(2) sc(3) sc(4) cU cV]
  from R(1,2) show "nx (PNode c) = Some b" "pv (PNode c) = Some a"
    "nx a = Some (PNode c)" "pv b = Some (PNode c)"
    by (simp_all add: links_def)
  from R(3) d' show "ring (nx(a \<mapsto> b, PNode c \<mapsto> NULL)) (pv(b \<mapsto> a, PNode c \<mapsto> NULL)) l (ys @ zs)"
    by (simp add: ring_def)
qed

subsection \<open>The list operations keep the kernel well formed\<close>

lemma kernel_absD:
  assumes "kernel_abs cfg s cont"
  shows "length (tasks_ready s) = NUM_PRIORITIES cfg"
    and "\<And>l. valid_list cfg l \<Longrightarrow> ring (nextv s) (prevv s) l (cont l)"
    and "\<And>l. valid_list cfg l \<Longrightarrow> lenv s l = Some (of_nat (length (cont l)))"
    and "\<And>l. \<not> valid_list cfg l \<Longrightarrow> cont l = []"
    and "\<And>a l. (a \<in> set (cont l)) = (listv s a = Some (Some l))"
    and "\<And>a. listv s a \<noteq> None \<Longrightarrow>
           \<exists>pr f p. statv s a = Some (Some a, pr, f, p) \<and>
             LOW_PRIORITY cfg \<le> pr \<and> pr \<le> HIGH_PRIORITY cfg"
    and "\<And>a i. a \<in> set (cont (READY i)) \<Longrightarrow> \<exists>f p. statv s a = Some (Some a, i, f, p)"
  using assms unfolding kernel_abs_def by blast+

lemma kernel_absI:
  assumes "length (tasks_ready s) = NUM_PRIORITIES cfg"
    and "\<And>l. valid_list cfg l \<Longrightarrow> ring (nextv s) (prevv s) l (cont l)"
    and "\<And>l. valid_list cfg l \<Longrightarrow> lenv s l = Some (of_nat (length (cont l)))"
    and "\<And>l. \<not> valid_list cfg l \<Longrightarrow> cont l = []"
    and "\<And>a l. (a \<in> set (cont l)) = (listv s a = Some (Some l))"
    and "\<And>a. listv s a \<noteq> None \<Longrightarrow>
           \<exists>pr f p. statv s a = Some (Some a, pr, f, p) \<and>
             LOW_PRIORITY cfg \<le> pr \<and> pr \<le> HIGH_PRIORITY cfg"
    and "\<And>a i. a \<in> set (cont (READY i)) \<Longrightarrow> \<exists>f p. statv s a = Some (Some a, i, f, p)"
  shows "kernel_abs cfg s cont"
  unfolding kernel_abs_def using assms by blast

lemma cells_of_list:
  "last (PList l # map PNode ys) \<in> insert (PList l) (PNode ` set ys)"
  "hd (map PNode zs @ [PList l]) \<in> insert (PList l) (PNode ` set zs)"
  using last_cells_cases [of l ys] hd_cells_cases [of zs l] by auto

lemma abs_remove:
  fixes s :: "('t::len, 'n::len, 'f, 'p, 'u) kernel"
  assumes abs: "kernel_abs cfg s cont" and mem: "a \<in> set (cont l)"
  shows "\<exists>s'. list_remove (PNode a) s = Inr s' \<and>
           kernel_abs cfg s' (cont(l := remove1 a (cont l))) \<and>
           listv s' = (listv s)(a \<mapsto> None) \<and> statv s' = statv s \<and> same_rest s s'"
proof -
  note A = kernel_absD [OF abs]
  have vl: "valid_list cfg l" using mem A(4) [of l] by (cases "valid_list cfg l") auto
  from mem obtain ys zs where split: "cont l = ys @ a # zs" by (auto dest: split_list)
  define p where "p = last (PList l # map PNode ys)"
  define n where "n = hd (map PNode zs @ [PList l])"
  have r: "ring (nextv s) (prevv s) l (ys @ a # zs)" using A(2) [OF vl] split by simp
  note R = ring_remove [OF r p_def n_def]
  from r have d: "distinct (ys @ a # zs)" by (simp add: ring_def)
  then have rem2: "remove1 a (ys @ a # zs) = ys @ zs" by (simp add: remove1_append)
  then have rem: "remove1 a (cont l) = ys @ zs" by (simp add: split)
  have lst: "listv s a = Some (Some l)" using mem A(5) by simp
  have pn: "prevv s n \<noteq> None" and np: "nextv s p \<noteq> None" using R(3,4) by simp_all
  from list_remove_view [OF lst R(1) R(2) pn np A(3) [OF vl]]
  obtain s' where run: "list_remove (PNode a) s = Inr s'"
    and nx': "nextv s' = (nextv s)(p \<mapsto> n, PNode a \<mapsto> NULL)"
    and pv': "prevv s' = (prevv s)(n \<mapsto> p, PNode a \<mapsto> NULL)"
    and ls': "listv s' = (listv s)(a \<mapsto> None)"
    and ln': "lenv s' = (lenv s)(l \<mapsto> of_nat (length (cont l)) - 1)"
    and st': "statv s' = statv s" and rest: "same_rest s s'"
    by blast
  let ?cont = "cont(l := remove1 a (cont l))"
  have pc: "p \<in> insert (PList l) (PNode ` set (cont l))"
    and nc: "n \<in> insert (PList l) (PNode ` set (cont l))"
    using cells_of_list(1) [of l ys] cells_of_list(2) [of zs l] by (auto simp: p_def n_def split)
  have "kernel_abs cfg s' ?cont"
  proof (rule kernel_absI)
    show "length (tasks_ready s') = NUM_PRIORITIES cfg"
      using rest A(1) by (simp add: same_rest_def)
  next
    fix l' assume v': "valid_list cfg l'"
    show "ring (nextv s') (prevv s') l' (?cont l')"
    proof (cases "l' = l")
      case True
      then show ?thesis using R(5) by (simp add: nx' pv' rem)
    next
      case False
      have disj: "x \<notin> insert (PList l) (PNode ` set (cont l))"
        if "x \<in> insert (PList l') (PNode ` set (cont l'))" for x
        using that False A(5) by auto
      have "ring (nextv s') (prevv s') l' (cont l') = ring (nextv s) (prevv s) l' (cont l')"
      proof (rule ring_frame, rule ballI)
        fix x assume x: "x \<in> insert (PList l') (PNode ` set (cont l'))"
        from disj [OF x] pc nc have "x \<noteq> p" "x \<noteq> n" by auto
        moreover from disj [OF x] mem have "x \<noteq> PNode a" by auto
        ultimately show "nextv s' x = nextv s x \<and> prevv s' x = prevv s x"
          by (simp add: nx' pv')
      qed
      with A(2) [OF v'] False show ?thesis by simp
    qed
    show "lenv s' l' = Some (of_nat (length (?cont l')))"
    proof (cases "l' = l")
      case True
      then show ?thesis by (simp add: ln' rem2 split)
    next
      case False
      then show ?thesis using A(3) [OF v'] by (simp add: ln')
    qed
  next
    fix l' assume "\<not> valid_list cfg l'"
    with A(4) [of l'] vl show "?cont l' = []" by (cases "l' = l") auto
  next
    fix x l'
    show "(x \<in> set (?cont l')) = (listv s' x = Some (Some l'))"
      using A(5) [of x l'] A(5) [of x l] d by (auto simp: ls' rem2 split)
  next
    fix x assume "listv s' x \<noteq> None"
    then have "listv s x \<noteq> None" using lst by (auto simp: ls' split: if_splits)
    from A(6) [OF this] show "\<exists>pr f p. statv s' x = Some (Some x, pr, f, p) \<and>
             LOW_PRIORITY cfg \<le> pr \<and> pr \<le> HIGH_PRIORITY cfg"
      by (simp add: st')
  next
    fix x i assume "x \<in> set (?cont (READY i))"
    then have "x \<in> set (cont (READY i))" by (auto simp: rem2 split split: if_splits)
    from A(7) [OF this] show "\<exists>f p. statv s' x = Some (Some x, i, f, p)" by (simp add: st')
  qed
  with run ls' st' rest show ?thesis by blast
qed

lemma abs_insert:
  fixes s :: "('t::len, 'n::len, 'f, 'p, 'u) kernel"
  assumes abs: "kernel_abs cfg s cont" and det: "listv s a = Some None"
    and vl: "valid_list cfg l" and split: "cont l = ys @ zs"
    and pos: "pos = last (PList l # map PNode ys)"
    and pri: "\<And>i. l = READY i \<Longrightarrow> \<exists>f p. statv s a = Some (Some a, i, f, p)"
  shows "\<exists>s'. list_insert_after l pos (PNode a) s = Inr s' \<and>
           kernel_abs cfg s' (cont(l := ys @ a # zs)) \<and>
           listv s' = (listv s)(a \<mapsto> Some l) \<and> statv s' = statv s \<and> same_rest s s'"
proof -
  note A = kernel_absD [OF abs]
  define n where "n = hd (map PNode zs @ [PList l])"
  have r: "ring (nextv s) (prevv s) l (ys @ zs)" using A(2) [OF vl] split by simp
  from ring_split [OF r] have lk: "links (nextv s) (prevv s) pos n" by (simp add: pos n_def)
  then have nxp: "nextv s pos = Some n" and pvn: "prevv s n \<noteq> None" by (simp_all add: links_def)
  have nomem: "a \<notin> set (cont l')" for l' using det A(5) [of a l'] by simp
  then have c: "a \<notin> set (ys @ zs)" using split by metis
  have la: "listv s a \<noteq> None" using det by simp
  from list_insert_after_view [OF nxp pvn la A(3) [OF vl]]
  obtain s' where run: "list_insert_after l pos (PNode a) s = Inr s'"
    and nx': "nextv s' = (nextv s)(PNode a \<mapsto> n, pos \<mapsto> PNode a)"
    and pv': "prevv s' = (prevv s)(PNode a \<mapsto> pos, n \<mapsto> PNode a)"
    and ls': "listv s' = (listv s)(a \<mapsto> Some l)"
    and ln': "lenv s' = (lenv s)(l \<mapsto> of_nat (length (cont l)) + 1)"
    and st': "statv s' = statv s" and rest: "same_rest s s'"
    by blast
  let ?cont = "cont(l := ys @ a # zs)"
  have pc: "pos \<in> insert (PList l) (PNode ` set (cont l))"
    and nc: "n \<in> insert (PList l) (PNode ` set (cont l))"
    using cells_of_list(1) [of l ys] cells_of_list(2) [of zs l] by (auto simp: pos n_def split)
  have "kernel_abs cfg s' ?cont"
  proof (rule kernel_absI)
    show "length (tasks_ready s') = NUM_PRIORITIES cfg"
      using rest A(1) by (simp add: same_rest_def)
  next
    fix l' assume v': "valid_list cfg l'"
    show "ring (nextv s') (prevv s') l' (?cont l')"
    proof (cases "l' = l")
      case True
      then show ?thesis using ring_insert [OF r c pos n_def] by (simp add: nx' pv')
    next
      case False
      have disj: "x \<notin> insert (PList l) (PNode ` set (cont l))"
        if "x \<in> insert (PList l') (PNode ` set (cont l'))" for x
        using that False A(5) by auto
      have "ring (nextv s') (prevv s') l' (cont l') = ring (nextv s) (prevv s) l' (cont l')"
      proof (rule ring_frame, rule ballI)
        fix x assume x: "x \<in> insert (PList l') (PNode ` set (cont l'))"
        from disj [OF x] pc nc have "x \<noteq> pos" "x \<noteq> n" by auto
        moreover from x nomem [of l'] have "x \<noteq> PNode a" by auto
        ultimately show "nextv s' x = nextv s x \<and> prevv s' x = prevv s x"
          by (simp add: nx' pv')
      qed
      with A(2) [OF v'] False show ?thesis by simp
    qed
    show "lenv s' l' = Some (of_nat (length (?cont l')))"
    proof (cases "l' = l")
      case True
      then show ?thesis by (simp add: ln' split)
    next
      case False
      then show ?thesis using A(3) [OF v'] by (simp add: ln')
    qed
  next
    fix l' assume "\<not> valid_list cfg l'"
    with A(4) [of l'] vl show "?cont l' = []" by (cases "l' = l") auto
  next
    fix x l'
    show "(x \<in> set (?cont l')) = (listv s' x = Some (Some l'))"
      using A(5) [of x l'] A(5) [of x l] nomem [of l'] det by (auto simp: ls' split)
  next
    fix x assume "listv s' x \<noteq> None"
    then have "listv s x \<noteq> None" using det by (auto simp: ls' split: if_splits)
    from A(6) [OF this] show "\<exists>pr f p. statv s' x = Some (Some x, pr, f, p) \<and>
             LOW_PRIORITY cfg \<le> pr \<and> pr \<le> HIGH_PRIORITY cfg"
      by (simp add: st')
  next
    fix x i assume x: "x \<in> set (?cont (READY i))"
    show "\<exists>f p. statv s' x = Some (Some x, i, f, p)"
    proof (cases "x = a \<and> l = READY i")
      case True
      then show ?thesis using pri [of i] by (simp add: st')
    next
      case False
      with x have "x \<in> set (cont (READY i))" using nomem [of "READY i"]
        by (auto simp: split split: if_splits)
      from A(7) [OF this] show ?thesis by (simp add: st')
    qed
  qed
  with run ls' st' rest show ?thesis by blast
qed

subsection \<open>The kernel functions keep the kernel well formed\<close>

lemma views_cong:
  assumes "tasks_ready s' = tasks_ready s" and "tasks_suspended s' = tasks_suspended s"
    and "task_mem s' = task_mem s"
  shows "nextv s' = nextv s" and "prevv s' = prevv s" and "listv s' = listv s"
    and "statv s' = statv s" and "lenv s' = lenv s"
  using assms
  by (auto simp: view_defs prim_defs fun_eq_iff split: ptr.splits list_id.splits option.splits)

lemma kernel_abs_cong:
  assumes "tasks_ready s' = tasks_ready s" and "tasks_suspended s' = tasks_suspended s"
    and "task_mem s' = task_mem s"
  shows "kernel_abs cfg s' cont = kernel_abs cfg s cont"
  unfolding kernel_abs_def views_cong [OF assms] assms(1) ..

lemma kernel_inv_cong:
  assumes "tasks_ready s' = tasks_ready s" and "tasks_suspended s' = tasks_suspended s"
    and "task_mem s' = task_mem s"
  shows "kernel_inv cfg s' = kernel_inv cfg s"
  unfolding kernel_inv_def kernel_abs_cong [OF assms] views_cong [OF assms] ..

lemma kernel_inv_tick: "kernel_inv cfg (librertos_tick_interrupt s) = kernel_inv cfg s"
  by (rule kernel_inv_cong) (simp_all add: librertos_tick_interrupt_def)

lemma kernel_inv_current_task: "kernel_inv cfg (s\<lparr>current_task := c\<rparr>) = kernel_inv cfg s"
  by (rule kernel_inv_cong) simp_all

lemma kernel_inv_user: "kernel_inv cfg (s\<lparr>user := u\<rparr>) = kernel_inv cfg s"
  by (rule kernel_inv_cong) simp_all

lemma init_views:
  fixes s0 :: "('t::len, 'n::len, 'f, 'p, 'u) kernel"
  assumes "task_mem s0 = (\<lambda>a. None)"
  shows "nextv (librertos_init cfg s0) (PList l) = (if valid_list cfg l then Some (PList l) else None)"
    and "prevv (librertos_init cfg s0) (PList l) = (if valid_list cfg l then Some (PList l) else None)"
    and "lenv (librertos_init cfg s0) l = (if valid_list cfg l then Some 0 else None)"
    and "listv (librertos_init cfg s0) a = None"
  using assms
  by (auto simp: view_defs prim_defs librertos_init_def valid_list_def list_init_def
      split: list_id.splits)

lemma kernel_inv_init:
  fixes s0 :: "('t::len, 'n::len, 'f, 'p, 'u) kernel"
  assumes "task_mem s0 = (\<lambda>a. None)"
  shows "kernel_inv cfg (librertos_init cfg s0)"
proof -
  note V = init_views [OF assms, of cfg]
  have "kernel_abs cfg (librertos_init cfg s0) (\<lambda>l. [])"
  proof (rule kernel_absI)
    show "length (tasks_ready (librertos_init cfg s0)) = NUM_PRIORITIES cfg"
      by (simp add: librertos_init_def)
  qed (simp_all add: V ring_def links_def)
  then show ?thesis unfolding kernel_inv_def by (auto simp: V)
qed

lemma abs_insert_last:
  fixes s :: "('t::len, 'n::len, 'f, 'p, 'u) kernel"
  assumes abs: "kernel_abs cfg s cont" and det: "listv s a = Some None"
    and vl: "valid_list cfg l"
    and pri: "\<And>i. l = READY i \<Longrightarrow> \<exists>f p. statv s a = Some (Some a, i, f, p)"
  shows "\<exists>s'. list_insert_last l (PNode a) s = Inr s' \<and>
           kernel_abs cfg s' (cont(l := cont l @ [a])) \<and>
           listv s' = (listv s)(a \<mapsto> Some l) \<and> statv s' = statv s \<and> same_rest s s'"
proof -
  let ?pos = "last (PList l # map PNode (cont l))"
  have r: "ring (nextv s) (prevv s) l (cont l @ [])"
    using kernel_absD(2) [OF abs vl] by simp
  from ring_split [OF r] have "prevv s (PList l) = Some ?pos" by (simp add: links_def)
  then have g: "get_prev (PList l) s = Inr ?pos" by (rule get_prev_prevv)
  have split: "cont l = cont l @ []" by simp
  from abs_insert [OF abs det vl split refl pri]
  obtain s' where "list_insert_after l ?pos (PNode a) s = Inr s'"
    and "kernel_abs cfg s' (cont(l := cont l @ [a]))"
    and "listv s' = (listv s)(a \<mapsto> Some l)" and "statv s' = statv s" and "same_rest s s'"
    by blast
  with g show ?thesis by (simp add: list_insert_last_def bindE_def)
qed

lemma abs_insert_first:
  fixes s :: "('t::len, 'n::len, 'f, 'p, 'u) kernel"
  assumes abs: "kernel_abs cfg s cont" and det: "listv s a = Some None"
    and vl: "valid_list cfg l"
    and pri: "\<And>i. l = READY i \<Longrightarrow> \<exists>f p. statv s a = Some (Some a, i, f, p)"
  shows "\<exists>s'. list_insert_first l (PNode a) s = Inr s' \<and>
           kernel_abs cfg s' (cont(l := a # cont l)) \<and>
           listv s' = (listv s)(a \<mapsto> Some l) \<and> statv s' = statv s \<and> same_rest s s'"
proof -
  have split: "cont l = [] @ cont l" by simp
  have pos: "PList l = last (PList l # map PNode [])" by simp
  from abs_insert [OF abs det vl split pos pri]
  show ?thesis by (simp add: list_insert_first_def)
qed

lemma valid_list_READY:
  "config_ok cfg \<Longrightarrow> LOW_PRIORITY cfg \<le> i \<Longrightarrow> i \<le> HIGH_PRIORITY cfg \<Longrightarrow>
   valid_list cfg (READY i)"
  by (simp add: config_ok_def valid_list_def)

lemma new_task_views:
  fixes s :: "('t::len, 'n::len, 'f, 'p, 'u) kernel"
  assumes "s1 = s\<lparr>task_mem := (task_mem s)(t \<mapsto>
                   \<lparr>func = fn, param = par, priority = prio,
                    sched_node = node_init (Some t)\<rparr>)\<rparr>"
  shows "nextv s1 = (nextv s)(PNode t \<mapsto> NULL)" and "prevv s1 = (prevv s)(PNode t \<mapsto> NULL)"
    and "listv s1 = (listv s)(t \<mapsto> None)"
    and "statv s1 = (statv s)(t \<mapsto> (Some t, prio, fn, par))"
    and "lenv s1 = lenv s" and "same_rest s s1"
  unfolding assms
  by (auto simp: view_defs prim_defs node_init_def fun_eq_iff
      split: ptr.splits list_id.splits option.splits)

lemma kernel_inv_create_task:
  fixes s :: "('t::len, 'n::len, 'f, 'p, 'u) kernel"
  assumes inv: "kernel_inv cfg s" and ok: "config_ok cfg" and fresh: "task_mem s t = None"
    and run: "librertos_create_task cfg prio t fn par s = Inr s'"
  shows "kernel_inv cfg s'"
proof -
  define s1 where "s1 = s\<lparr>task_mem := (task_mem s)(t \<mapsto>
                   \<lparr>func = fn, param = par, priority = prio,
                    sched_node = node_init (Some t)\<rparr>)\<rparr>"
  note V = new_task_views [OF s1_def]
  from run have range: "LOW_PRIORITY cfg \<le> prio" "prio \<le> HIGH_PRIORITY cfg"
    by (auto simp: librertos_create_task_def split: if_splits)
  with run have run1: "list_insert_last (READY prio) (PNode t) s1 = Inr s'"
    by (simp add: librertos_create_task_def s1_def Let_def)
  from inv obtain cont where abs: "kernel_abs cfg s cont" and nodet: "\<And>a. listv s a \<noteq> Some None"
    by (auto simp: kernel_inv_def)
  note A = kernel_absD [OF abs]
  from fresh have lt: "listv s t = None" by (simp add: listv_def)
  then have nomem: "t \<notin> set (cont l)" for l using A(5) [of t l] by simp
  have abs1: "kernel_abs cfg s1 cont"
  proof (rule kernel_absI)
    show "length (tasks_ready s1) = NUM_PRIORITIES cfg" using V(6) A(1) by (simp add: same_rest_def)
  next
    fix l assume vl: "valid_list cfg l"
    have "ring (nextv s1) (prevv s1) l (cont l) = ring (nextv s) (prevv s) l (cont l)"
      by (rule ring_frame) (use nomem [of l] in \<open>auto simp: V\<close>)
    with A(2) [OF vl] show "ring (nextv s1) (prevv s1) l (cont l)" by simp
    show "lenv s1 l = Some (of_nat (length (cont l)))" using A(3) [OF vl] by (simp add: V)
  next
    fix l assume "\<not> valid_list cfg l"
    then show "cont l = []" by (rule A(4))
  next
    fix a l show "(a \<in> set (cont l)) = (listv s1 a = Some (Some l))"
      using A(5) [of a l] nomem [of l] by (auto simp: V)
  next
    fix a assume "listv s1 a \<noteq> None"
    then show "\<exists>pr f p. statv s1 a = Some (Some a, pr, f, p) \<and>
             LOW_PRIORITY cfg \<le> pr \<and> pr \<le> HIGH_PRIORITY cfg"
      using A(6) [of a] range by (auto simp: V)
  next
    fix a i assume "a \<in> set (cont (READY i))"
    then show "\<exists>f p. statv s1 a = Some (Some a, i, f, p)"
      using A(7) [of a i] nomem [of "READY i"] by (auto simp: V)
  qed
  have det: "listv s1 t = Some None" by (simp add: V)
  have vl: "valid_list cfg (READY prio)" using ok range by (rule valid_list_READY)
  have pri: "\<exists>f p. statv s1 t = Some (Some t, i, f, p)" if "READY prio = READY i" for i
    using that by (simp add: V)
  from abs_insert_last [OF abs1 det vl pri] run1
  have abs': "kernel_abs cfg s' (cont(READY prio := cont (READY prio) @ [t]))"
    and ls': "listv s' = (listv s1)(t \<mapsto> Some (READY prio))"
    by auto
  have "listv s' a \<noteq> Some None" for a using nodet [of a] by (simp add: ls' V)
  with abs' show ?thesis unfolding kernel_inv_def by blast
qed

lemma list_remove_NULL: "list_remove NULL s = Inl NullPointer"
  by (simp add: list_remove_def prim_defs)

lemma list_remove_no_task: "listv s a = None \<Longrightarrow> list_remove (PNode a) s = Inl InvalidPointer"
  by (simp add: list_remove_def prim_defs listv_def)

lemma abs_move:
  fixes s :: "('t::len, 'n::len, 'f, 'p, 'u) kernel"
  assumes inv: "kernel_inv cfg s" and a: "listv s a \<noteq> None"
  shows "\<exists>s1 cont1. list_remove (PNode a) s = Inr s1 \<and> kernel_abs cfg s1 cont1 \<and>
           listv s1 = (listv s)(a \<mapsto> None) \<and> statv s1 = statv s \<and> same_rest s s1"
proof -
  from inv obtain cont where abs: "kernel_abs cfg s cont" and nodet: "\<And>a. listv s a \<noteq> Some None"
    by (auto simp: kernel_inv_def)
  from a nodet [of a] obtain l where "listv s a = Some (Some l)" by (cases "listv s a") auto
  then have "a \<in> set (cont l)" using kernel_absD(5) [OF abs] by simp
  from abs_remove [OF abs this] show ?thesis by blast
qed

lemma kernel_inv_task_suspend:
  fixes s :: "('t::len, 'n::len, 'f, 'p, 'u) kernel"
  assumes inv: "kernel_inv cfg s" and run: "task_suspend tp s = Inr s'"
  shows "kernel_inv cfg s'"
proof -
  define task where "task = (if tp = None then current_task s else tp)"
  from run have run': "bindE (list_remove (sched_node_of task) s)
      (\<lambda>s. list_insert_first SUSPENDED (sched_node_of task) s) = Inr s'"
    by (simp add: task_suspend_def task_def Let_def)
  from inv have nodet: "\<And>a. listv s a \<noteq> Some None" by (simp add: kernel_inv_def)
  show ?thesis
  proof (cases task)
    case None
    with run' show ?thesis by (simp add: sched_node_of_def list_remove_NULL bindE_def)
  next
    case (Some a)
    show ?thesis
    proof (cases "listv s a = None")
      case True
      with run' Some show ?thesis
        by (simp add: sched_node_of_def list_remove_no_task bindE_def)
    next
      case False
      from abs_move [OF inv False] obtain s1 cont1 where
        r1: "list_remove (PNode a) s = Inr s1" and abs1: "kernel_abs cfg s1 cont1"
        and l1: "listv s1 = (listv s)(a \<mapsto> None)"
        by blast
      have det: "listv s1 a = Some None" by (simp add: l1)
      have vl: "valid_list cfg SUSPENDED" by (simp add: valid_list_def)
      from abs_insert_first [OF abs1 det vl] obtain s2 where
        r2: "list_insert_first SUSPENDED (PNode a) s1 = Inr s2"
        and abs2: "kernel_abs cfg s2 (cont1(SUSPENDED := a # cont1 SUSPENDED))"
        and l2: "listv s2 = (listv s1)(a \<mapsto> Some SUSPENDED)"
        by auto
      from run' Some r1 r2 have "s' = s2" by (simp add: sched_node_of_def bindE_def)
      moreover have "listv s2 x \<noteq> Some None" for x using nodet [of x] by (simp add: l2 l1)
      ultimately show ?thesis using abs2 unfolding kernel_inv_def by blast
    qed
  qed
qed

lemma get_task_statv:
  "get_task (Some a) s = Inr t \<Longrightarrow>
   statv s a = Some (owner (sched_node t), priority t, func t, param t) \<and>
   listv s a = Some (list (sched_node t))"
  by (auto simp: get_task_def statv_def listv_def split: option.splits)

lemma kernel_inv_task_resume:
  fixes s :: "('t::len, 'n::len, 'f, 'p, 'u) kernel"
  assumes inv: "kernel_inv cfg s" and ok: "config_ok cfg" and run: "task_resume tp s = Inr s'"
  shows "kernel_inv cfg s'"
proof -
  from run obtain t where gt: "get_task tp s = Inr t"
    by (cases "get_task tp s") (simp_all add: task_resume_def bindE_def)
  then obtain a where tp: "tp = Some a" by (cases tp) (simp_all add: get_task_def)
  note S = get_task_statv [OF gt [unfolded tp]]
  from S have la: "listv s a \<noteq> None" by simp
  from inv obtain cont where abs: "kernel_abs cfg s cont" by (auto simp: kernel_inv_def)
  from inv have nodet: "\<And>a. listv s a \<noteq> Some None" by (simp add: kernel_inv_def)
  from kernel_absD(6) [OF abs la] S
  have range: "LOW_PRIORITY cfg \<le> priority t" "priority t \<le> HIGH_PRIORITY cfg"
    and own: "owner (sched_node t) = Some a"
    by auto
  show ?thesis
  proof (cases "list (sched_node t) = Some (READY (priority t))")
    case True
    with run gt have "s' = s" by (simp add: task_resume_def bindE_def)
    with inv show ?thesis by simp
  next
    case False
    with run gt tp have run': "bindE (list_remove (PNode a) s)
        (\<lambda>s. list_insert_last (READY (priority t)) (PNode a) s) = Inr s'"
      by (simp add: task_resume_def bindE_def sched_node_of_def Let_def)
    from abs_move [OF inv la] obtain s1 cont1 where
      r1: "list_remove (PNode a) s = Inr s1" and abs1: "kernel_abs cfg s1 cont1"
      and l1: "listv s1 = (listv s)(a \<mapsto> None)" and st1: "statv s1 = statv s"
      by blast
    have det: "listv s1 a = Some None" by (simp add: l1)
    have vl: "valid_list cfg (READY (priority t))" using ok range by (rule valid_list_READY)
    have pri: "\<exists>f p. statv s1 a = Some (Some a, i, f, p)" if "READY (priority t) = READY i" for i
      using that S own by (simp add: st1)
    from abs_insert_last [OF abs1 det vl pri] obtain s2 where
      r2: "list_insert_last (READY (priority t)) (PNode a) s1 = Inr s2"
      and abs2: "kernel_abs cfg s2
                   (cont1(READY (priority t) := cont1 (READY (priority t)) @ [a]))"
      and l2: "listv s2 = (listv s1)(a \<mapsto> Some (READY (priority t)))"
      by auto
    from run' r1 r2 have "s' = s2" by (simp add: bindE_def)
    moreover have "listv s2 x \<noteq> Some None" for x using nodet [of x] by (simp add: l2 l1)
    ultimately show ?thesis using abs2 unfolding kernel_inv_def by blast
  qed
qed

subsection \<open>The scheduler\<close>

lemma list_empty_lenv:
  "lenv s l = Some n \<Longrightarrow> list_empty l s = Inr (n = 0)"
  by (auto simp: lenv_def list_empty_def bindE_def split: sum.splits)

lemma list_get_first_nextv:
  "nextv s (PList l) = Some q \<Longrightarrow> list_get_first l s = Inr q"
  by (auto simp: nextv_def list_get_first_def get_next_def split: sum.splits)

lemma get_node_owner_statv:
  "statv s a = Some (ow, pr, f, p) \<Longrightarrow> get_node_owner (PNode a) s = Inr ow"
  by (auto simp: statv_def prim_defs split: option.splits)

lemma sched_rotate:
  fixes s :: "('t::len, 'n::len, 'f, 'p, 'u) kernel"
  assumes inv: "kernel_inv cfg s" and vl: "valid_list cfg (READY i)"
    and ne: "list_empty (READY i) s = Inr False"
  shows "\<exists>a f p s2. list_get_first (READY i) s = Inr (PNode a) \<and>
           statv s a = Some (Some a, i, f, p) \<and>
           get_node_owner (PNode a) s = Inr (Some a) \<and>
           bindE (list_remove (PNode a) s) (list_insert_last (READY i) (PNode a)) = Inr s2 \<and>
           kernel_inv cfg s2 \<and> statv s2 = statv s \<and> listv s2 = listv s \<and> same_rest s s2"
proof -
  from inv obtain cont where abs: "kernel_abs cfg s cont" and nodet: "\<And>a. listv s a \<noteq> Some None"
    by (auto simp: kernel_inv_def)
  note A = kernel_absD [OF abs]
  let ?l = "READY i"
  from ne list_empty_lenv [OF A(3) [OF vl]] have "cont ?l \<noteq> []" by auto
  then obtain a zs where split: "cont ?l = a # zs" by (cases "cont ?l") auto
  have r: "ring (nextv s) (prevv s) ?l ([] @ cont ?l)" using A(2) [OF vl] by simp
  from ring_split [OF r] have "nextv s (PList ?l) = Some (PNode a)"
    by (simp add: links_def split)
  then have first: "list_get_first ?l s = Inr (PNode a)" by (rule list_get_first_nextv)
  have mem: "a \<in> set (cont ?l)" by (simp add: split)
  from A(7) [OF mem] obtain f p where st: "statv s a = Some (Some a, i, f, p)" by blast
  then have own: "get_node_owner (PNode a) s = Inr (Some a)" by (rule get_node_owner_statv)
  from abs_remove [OF abs mem] obtain s1 where
    r1: "list_remove (PNode a) s = Inr s1"
    and abs1: "kernel_abs cfg s1 (cont(?l := remove1 a (cont ?l)))"
    and l1: "listv s1 = (listv s)(a \<mapsto> None)" and st1: "statv s1 = statv s"
    and rest1: "same_rest s s1"
    by blast
  have det: "listv s1 a = Some None" by (simp add: l1)
  have pri: "\<exists>f p. statv s1 a = Some (Some a, j, f, p)" if "?l = READY j" for j
    using that st by (simp add: st1)
  from abs_insert_last [OF abs1 det vl pri] obtain s2 cont2 where
    r2: "list_insert_last ?l (PNode a) s1 = Inr s2"
    and abs2: "kernel_abs cfg s2 cont2"
    and l2: "listv s2 = (listv s1)(a \<mapsto> Some ?l)" and st2: "statv s2 = statv s1"
    and rest2: "same_rest s1 s2"
    by blast
  have la: "listv s a = Some (Some ?l)" using mem A(5) by simp
  have ls: "listv s2 = listv s" using la by (auto simp: l2 l1)
  have "kernel_inv cfg s2" unfolding kernel_inv_def using abs2 nodet by (auto simp: ls)
  moreover have "same_rest s s2" using rest1 rest2 by (rule same_rest_trans)
  moreover have "bindE (list_remove (PNode a) s) (list_insert_last ?l (PNode a)) = Inr s2"
    using r1 r2 by (simp add: bindE_def)
  ultimately show ?thesis using first st own st1 st2 ls by auto
qed

lemma sched_loop_props:
  fixes s :: "('t::len, 'n::len, 'f, 'p, 'u) kernel"
  assumes inv: "kernel_inv cfg s" and ok: "config_ok cfg"
    and i: "i \<le> HIGH_PRIORITY cfg" and cp: "- 1 \<le> cp"
    and run: "sched_loop cp i s = Inr r"
  shows "(r = None \<longrightarrow> (\<forall>j. cp < j \<and> j \<le> i \<longrightarrow> list_empty (READY j) s = Inr True)) \<and>
         (\<forall>task s1. r = Some (task, s1) \<longrightarrow>
            (\<exists>a j f p. task = Some a \<and> cp < j \<and> j \<le> i \<and>
               statv s a = Some (Some a, j, f, p) \<and>
               (\<forall>k. j < k \<and> k \<le> i \<longrightarrow> list_empty (READY k) s = Inr True) \<and>
               list_empty (READY j) s = Inr False \<and>
               list_get_first (READY j) s = Inr (PNode a) \<and>
               kernel_inv cfg s1 \<and> current_task s1 = Some a \<and>
               statv s1 = statv s \<and> listv s1 = listv s \<and>
               tick s1 = tick s \<and> user s1 = user s))"
  using inv i cp run
proof (induction cp i s rule: sched_loop.induct)
  case (1 cp i s)
  note inv = "1.prems"(1) and ihi = "1.prems"(2) and cp = "1.prems"(3) and run = "1.prems"(4)
  show ?case
  proof (cases "i > cp")
    case False
    with run show ?thesis by auto
  next
    case True
    with cp have "0 \<le> i" by linarith
    with ok ihi have vl: "valid_list cfg (READY i)"
      by (simp add: valid_list_def config_ok_def)
    from inv obtain cont where abs: "kernel_abs cfg s cont" by (auto simp: kernel_inv_def)
    from list_empty_lenv [OF kernel_absD(3) [OF abs vl]]
    obtain e where e: "list_empty (READY i) s = Inr e" by blast
    show ?thesis
    proof (cases e)
      case True
      with e \<open>i > cp\<close> run have run': "sched_loop cp (i - 1) s = Inr r" by simp
      have i': "i - 1 \<le> HIGH_PRIORITY cfg" using ihi by simp
      from True have eT: "e = True" by simp
      note IH = "1.IH" [OF \<open>i > cp\<close> e eT inv i' cp run']
      have top: "list_empty (READY i) s = Inr True" using e True by simp
      have ext: "list_empty (READY k) s = Inr True"
        if "\<forall>k. j < k \<and> k \<le> i - 1 \<longrightarrow> list_empty (READY k) s = Inr True"
          and "j < k" and "k \<le> i" for j k
      proof (cases "k = i")
        case True
        then show ?thesis using top by simp
      next
        case False
        with that show ?thesis by auto
      qed
      show ?thesis
      proof (intro conjI impI allI)
        fix j assume "r = None" and "cp < j \<and> j \<le> i"
        with IH ext [of cp j] show "list_empty (READY j) s = Inr True" by blast
      next
        fix task s1 assume "r = Some (task, s1)"
        with IH obtain a j f p where
          P: "task = Some a" "cp < j" "j \<le> i - 1" "statv s a = Some (Some a, j, f, p)"
            "\<forall>k. j < k \<and> k \<le> i - 1 \<longrightarrow> list_empty (READY k) s = Inr True"
            "list_empty (READY j) s = Inr False"
            "list_get_first (READY j) s = Inr (PNode a)"
            "kernel_inv cfg s1" "current_task s1 = Some a"
            "statv s1 = statv s" "listv s1 = listv s" "tick s1 = tick s" "user s1 = user s"
          by blast
        have "\<forall>k. j < k \<and> k \<le> i \<longrightarrow> list_empty (READY k) s = Inr True"
          using ext [OF P(5)] by blast
        moreover have "j \<le> i" using P(3) by simp
        ultimately show "\<exists>a j f p. task = Some a \<and> cp < j \<and> j \<le> i \<and>
               statv s a = Some (Some a, j, f, p) \<and>
               (\<forall>k. j < k \<and> k \<le> i \<longrightarrow> list_empty (READY k) s = Inr True) \<and>
               list_empty (READY j) s = Inr False \<and>
               list_get_first (READY j) s = Inr (PNode a) \<and>
               kernel_inv cfg s1 \<and> current_task s1 = Some a \<and>
               statv s1 = statv s \<and> listv s1 = listv s \<and>
               tick s1 = tick s \<and> user s1 = user s"
          using P by blast
      qed
    next
      case False
      from e False have eF: "list_empty (READY i) s = Inr False" by simp
      from sched_rotate [OF inv vl eF] obtain a f p s2 where
        R: "list_get_first (READY i) s = Inr (PNode a)"
          "statv s a = Some (Some a, i, f, p)"
          "get_node_owner (PNode a) s = Inr (Some a)"
          "bindE (list_remove (PNode a) s) (list_insert_last (READY i) (PNode a)) = Inr s2"
          "kernel_inv cfg s2" "statv s2 = statv s" "listv s2 = listv s" "same_rest s s2"
        by blast
      from R(4) obtain sa where sa: "list_remove (PNode a) s = Inr sa"
        and sb: "list_insert_last (READY i) (PNode a) sa = Inr s2"
        by (cases "list_remove (PNode a) s") (simp_all add: bindE_def)
      from e False \<open>i > cp\<close> run R(1) R(3) sa sb
      have r: "r = Some (Some a, s2\<lparr>current_task := Some a\<rparr>)"
        by (simp add: bindE_def)
      have v: "statv (s2\<lparr>current_task := Some a\<rparr>) = statv s2"
        "listv (s2\<lparr>current_task := Some a\<rparr>) = listv s2"
        by (rule views_cong; simp)+
      show ?thesis
        using r R e False \<open>i > cp\<close> v
        by (auto simp: kernel_inv_current_task same_rest_def)
    qed
  qed
qed

lemma sched_enter_props:
  fixes s :: "('t::len, 'n::len, 'f, 'p, 'u) kernel"
  assumes inv: "kernel_inv cfg s" and ok: "config_ok cfg"
    and run: "sched_enter cfg s = Inr r"
  shows "(KERNEL_MODE cfg = LIBRERTOS_COOPERATIVE \<and> current_task s \<noteq> None \<longrightarrow> r = None) \<and>
         (\<forall>task s1. r = Some (task, s1) \<longrightarrow>
            (\<exists>a j f p. task = Some a \<and> statv s a = Some (Some a, j, f, p) \<and>
               (\<forall>c tc. current_task s = Some c \<and> task_mem s c = Some tc \<longrightarrow> priority tc < j) \<and>
               j \<le> HIGH_PRIORITY cfg \<and>
               (\<forall>k. j < k \<and> k \<le> HIGH_PRIORITY cfg \<longrightarrow> list_empty (READY k) s = Inr True) \<and>
               list_empty (READY j) s = Inr False \<and>
               list_get_first (READY j) s = Inr (PNode a) \<and>
               kernel_inv cfg s1 \<and> current_task s1 = Some a \<and>
               statv s1 = statv s \<and> listv s1 = listv s \<and>
               tick s1 = tick s \<and> user s1 = user s))"
proof -
  define cpr where "cpr = (case current_task s of None \<Rightarrow> Inr (- 1)
            | Some a \<Rightarrow> bindE (get_task (Some a) s) (\<lambda>t. Inr (priority t)))"
  from run obtain cp where cp: "cpr = Inr cp"
    by (cases cpr) (simp_all add: sched_enter_def bindE_def cpr_def)
  from inv obtain cont where abs: "kernel_abs cfg s cont" by (auto simp: kernel_inv_def)
  have cur: "priority tc = cp \<and> 0 \<le> cp" if "current_task s = Some c" "task_mem s c = Some tc" for c tc
  proof -
    from that cp have "priority tc = cp" by (simp add: cpr_def get_task_def bindE_def)
    moreover from that have "listv s c \<noteq> None" "statv s c = Some (owner (sched_node tc), priority tc, func tc, param tc)"
      by (simp_all add: listv_def statv_def)
    with kernel_absD(6) [OF abs, of c] ok have "0 \<le> priority tc" by (auto simp: config_ok_def)
    ultimately show ?thesis by simp
  qed
  have cur_ex: "\<exists>tc. task_mem s c = Some tc" if "current_task s = Some c" for c
    using that cp by (cases "task_mem s c") (simp_all add: cpr_def get_task_def bindE_def)
  have none: "cp = - 1" if "current_task s = None" using that cp by (simp add: cpr_def)
  have lo: "- 1 \<le> cp"
  proof (cases "current_task s")
    case None
    then show ?thesis using none by simp
  next
    case (Some c)
    with cur_ex [OF Some] cur show ?thesis by fastforce
  qed
  show ?thesis
  proof (cases "KERNEL_MODE cfg = LIBRERTOS_COOPERATIVE \<and> cp \<ge> 0")
    case True
    with run cp have "r = None" by (simp add: sched_enter_def bindE_def cpr_def)
    then show ?thesis by simp
  next
    case False
    with run cp have loop: "sched_loop cp (HIGH_PRIORITY cfg) s = Inr r"
      by (auto simp: sched_enter_def bindE_def cpr_def)
    note L = sched_loop_props [OF inv ok order_refl lo loop]
    have coop: "r = None" if "KERNEL_MODE cfg = LIBRERTOS_COOPERATIVE" "current_task s \<noteq> None"
    proof -
      from that(2) obtain c where c: "current_task s = Some c" by auto
      from cur_ex [OF c] cur [OF c] have "0 \<le> cp" by blast
      with False that(1) show ?thesis by simp
    qed
    show ?thesis
    proof (intro conjI impI allI)
      assume "KERNEL_MODE cfg = LIBRERTOS_COOPERATIVE \<and> current_task s \<noteq> None"
      then show "r = None" using coop by blast
    next
      fix task s1 assume "r = Some (task, s1)"
      with L obtain a j f p where
        P: "task = Some a" "cp < j" "j \<le> HIGH_PRIORITY cfg" "statv s a = Some (Some a, j, f, p)"
          "\<forall>k. j < k \<and> k \<le> HIGH_PRIORITY cfg \<longrightarrow> list_empty (READY k) s = Inr True"
          "list_empty (READY j) s = Inr False"
          "list_get_first (READY j) s = Inr (PNode a)"
          "kernel_inv cfg s1" "current_task s1 = Some a"
          "statv s1 = statv s" "listv s1 = listv s" "tick s1 = tick s" "user s1 = user s"
        by blast
      have "\<forall>c tc. current_task s = Some c \<and> task_mem s c = Some tc \<longrightarrow> priority tc < j"
        using cur P(2) by auto
      with P show "\<exists>a j f p. task = Some a \<and> statv s a = Some (Some a, j, f, p) \<and>
               (\<forall>c tc. current_task s = Some c \<and> task_mem s c = Some tc \<longrightarrow> priority tc < j) \<and>
               j \<le> HIGH_PRIORITY cfg \<and>
               (\<forall>k. j < k \<and> k \<le> HIGH_PRIORITY cfg \<longrightarrow> list_empty (READY k) s = Inr True) \<and>
               list_empty (READY j) s = Inr False \<and>
               list_get_first (READY j) s = Inr (PNode a) \<and>
               kernel_inv cfg s1 \<and> current_task s1 = Some a \<and>
               statv s1 = statv s \<and> listv s1 = listv s \<and>
               tick s1 = tick s \<and> user s1 = user s"
        by blast
    qed
  qed
qed

lemma sched_loop_total:
  fixes s :: "('t::len, 'n::len, 'f, 'p, 'u) kernel"
  assumes inv: "kernel_inv cfg s" and ok: "config_ok cfg"
    and i: "i \<le> HIGH_PRIORITY cfg" and cp: "- 1 \<le> cp"
  shows "\<exists>r. sched_loop cp i s = Inr r"
  using inv i cp
proof (induction cp i s rule: sched_loop.induct)
  case (1 cp i s)
  note inv = "1.prems"(1) and ihi = "1.prems"(2) and cp = "1.prems"(3)
  show ?case
  proof (cases "i > cp")
    case False
    then show ?thesis by simp
  next
    case True
    with cp have "0 \<le> i" by linarith
    with ok ihi have vl: "valid_list cfg (READY i)"
      by (simp add: valid_list_def config_ok_def)
    from inv obtain cont where abs: "kernel_abs cfg s cont" by (auto simp: kernel_inv_def)
    from list_empty_lenv [OF kernel_absD(3) [OF abs vl]]
    obtain e where e: "list_empty (READY i) s = Inr e" by blast
    show ?thesis
    proof (cases e)
      case True
      have i': "i - 1 \<le> HIGH_PRIORITY cfg" using ihi by simp
      from True have eT: "e = True" by simp
      from "1.IH" [OF \<open>i > cp\<close> e eT inv i' cp] e True \<open>i > cp\<close>
      show ?thesis by simp
    next
      case False
      from e False have eF: "list_empty (READY i) s = Inr False" by simp
      from sched_rotate [OF inv vl eF] obtain a f p s2 where
        R: "list_get_first (READY i) s = Inr (PNode a)"
          "get_node_owner (PNode a) s = Inr (Some a)"
          "bindE (list_remove (PNode a) s) (list_insert_last (READY i) (PNode a)) = Inr s2"
        by blast
      from R(3) obtain sa where sa: "list_remove (PNode a) s = Inr sa"
        and sb: "list_insert_last (READY i) (PNode a) sa = Inr s2"
        by (cases "list_remove (PNode a) s") (simp_all add: bindE_def)
      from e False \<open>i > cp\<close> R(1) R(2) sa sb show ?thesis by (simp add: bindE_def)
    qed
  qed
qed

lemma interrupted_priority_range:
  fixes s :: "('t::len, 'n::len, 'f, 'p, 'u) kernel"
  assumes inv: "kernel_inv cfg s" and ok: "config_ok cfg"
    and cp: "interrupted_priority s = Some cp"
  shows "- 1 \<le> cp" and "current_task s \<noteq> None \<Longrightarrow> 0 \<le> cp"
proof -
  from inv obtain cont where abs: "kernel_abs cfg s cont" by (auto simp: kernel_inv_def)
  have run: "0 \<le> cp" if "current_task s \<noteq> None"
  proof -
    from that obtain c where c: "current_task s = Some c" by auto
    with cp obtain tc where tc: "task_mem s c = Some tc" "priority tc = cp"
      by (auto simp: interrupted_priority_def)
    then have "listv s c \<noteq> None"
      "statv s c = Some (owner (sched_node tc), priority tc, func tc, param tc)"
      by (simp_all add: listv_def statv_def)
    with kernel_absD(6) [OF abs, of c] ok tc show ?thesis by (auto simp: config_ok_def)
  qed
  then show "current_task s \<noteq> None \<Longrightarrow> 0 \<le> cp" .
  show "- 1 \<le> cp"
  proof (cases "current_task s")
    case None
    with cp show ?thesis by (simp add: interrupted_priority_def)
  next
    case (Some c)
    with run show ?thesis by simp
  qed
qed

lemma sched_enter_loop:
  fixes s :: "('t::len, 'n::len, 'f, 'p, 'u) kernel"
  assumes cp: "interrupted_priority s = Some cp"
  shows "sched_enter cfg s =
           (if KERNEL_MODE cfg = LIBRERTOS_COOPERATIVE \<and> cp \<ge> 0
            then Inr None else sched_loop cp (HIGH_PRIORITY cfg) s)"
  using cp
  by (auto simp: sched_enter_def interrupted_priority_def bindE_def get_task_def
      split: option.splits)

lemma reachable_kernel_inv:
  fixes s :: "('t::len, 'n::len, 'f, 'p, 'u) kernel"
  assumes ok: "config_ok cfg" and r: "reachable cfg exec s"
  shows "kernel_inv cfg s"
  using r
proof (induction rule: reachable.induct)
  case (r_init s0)
  then show ?case by (rule kernel_inv_init)
next
  case (r_create s task prio fn par s')
  then show ?case using ok by (intro kernel_inv_create_task [of cfg s task prio fn par s'])
next
  case (r_suspend s tp s')
  then show ?case by (intro kernel_inv_task_suspend [of cfg s tp s'])
next
  case (r_resume s tp s')
  then show ?case using ok by (intro kernel_inv_task_resume [of cfg s tp s'])
next
  case (r_tick s)
  then show ?case by (simp add: kernel_inv_tick)
next
  case (r_user s u)
  then show ?case by (simp add: kernel_inv_user)
next
  case (r_enter s task s1)
  from sched_enter_props [OF r_enter.IH ok r_enter.hyps(2)] show ?case by blast
next
  case (r_sched s task s1 s2)
  then show ?case by (simp add: kernel_inv_current_task)
qed

subsection \<open>The example states\<close>

lemmas kernel_defs = librertos_init_def librertos_create_task_def list_insert_last_def
  list_insert_after_def list_insert_first_def list_remove_def list_init_def node_init_def
  list_empty_def list_get_first_def sched_enter_def run_task_def librertos_sched_def
  task_suspend_def task_resume_def sched_node_of_def prim_defs

lemma ex_one_run:
  "librertos_create_task (ex_cfg m) 0 10 0 100 (librertos_init (ex_cfg m) ex_blank) = Inr (ex_one m)"
  by (simp add: ex_one_def ex_cfg_def ex_blank_def kernel_defs Let_def)

lemma ex_two_run:
  "librertos_create_task (ex_cfg m) 1 11 1 101 (ex_one m) = Inr (ex_two m)"
  by (simp add: ex_two_def ex_one_def ex_cfg_def ex_blank_def kernel_defs Let_def)

lemma statv_task:
  "statv s a = Some (ow, j, f, p) \<Longrightarrow>
   \<exists>t. task_mem s a = Some t \<and> owner (sched_node t) = ow \<and> priority t = j \<and>
       func t = f \<and> param t = p"
  by (auto simp: statv_def)

subsection \<open>The claims about the kernel\<close>

text \<open>
  C3.  In every reachable kernel state (valid configuration): a task that
  \<^verbatim>\<open>librertos_sched\<close> selects, and so a task it runs, has a priority strictly
  greater than the priority of the task that is running when the scheduler is
  called; and in cooperative mode, while \<^verbatim>\<open>current_task\<close> is not null, the
  scheduler selects no task: the call returns with the state unchanged.
\<close>

theorem sched_selects_higher_priority:
  fixes s :: "('t::len, 'n::len, 'f, 'p, 'u) kernel"
  assumes ok: "config_ok cfg" and r: "reachable cfg exec s"
  shows "(\<forall>task s1. sched_enter cfg s = Inr (Some (task, s1)) \<longrightarrow>
            (\<exists>a t. task = Some a \<and> task_mem s a = Some t \<and>
               (\<forall>c tc. current_task s = Some c \<and> task_mem s c = Some tc \<longrightarrow>
                  priority tc < priority t))) \<and>
         (\<forall>task s'. librertos_sched cfg exec s = Inr (task, s') \<and> task \<noteq> None \<longrightarrow>
            (\<exists>a t. task = Some a \<and> task_mem s a = Some t \<and>
               (\<forall>c tc. current_task s = Some c \<and> task_mem s c = Some tc \<longrightarrow>
                  priority tc < priority t))) \<and>
         (KERNEL_MODE cfg = LIBRERTOS_COOPERATIVE \<and> current_task s \<noteq> None \<longrightarrow>
            (\<forall>x. sched_enter cfg s = Inr x \<longrightarrow> x = None) \<and>
            (\<forall>task s'. librertos_sched cfg exec s = Inr (task, s') \<longrightarrow> task = None \<and> s' = s)) \<and>
         (\<forall>c tc. KERNEL_MODE cfg = LIBRERTOS_COOPERATIVE \<and> current_task s = Some c \<and>
            task_mem s c = Some tc \<longrightarrow> librertos_sched cfg exec s = Inr (None, s))"
proof -
  note inv = reachable_kernel_inv [OF ok r]
  have sel: "\<exists>a t. task = Some a \<and> task_mem s a = Some t \<and>
               (\<forall>c tc. current_task s = Some c \<and> task_mem s c = Some tc \<longrightarrow>
                  priority tc < priority t)"
    if "sched_enter cfg s = Inr (Some (task, s1))" for task s1
  proof -
    from sched_enter_props [OF inv ok that] obtain a j f p where
      P: "task = Some a" "statv s a = Some (Some a, j, f, p)"
        "\<forall>c tc. current_task s = Some c \<and> task_mem s c = Some tc \<longrightarrow> priority tc < j"
      by blast
    from statv_task [OF P(2)] P(1,3) show ?thesis by blast
  qed
  have run: "\<exists>s1. sched_enter cfg s = Inr (Some (task, s1))"
    if "librertos_sched cfg exec s = Inr (task, s')" "task \<noteq> None" for task s'
    using that
    by (auto simp: librertos_sched_def bindE_def split: sum.splits option.splits)
  have coop1: "x = None"
    if "KERNEL_MODE cfg = LIBRERTOS_COOPERATIVE" "current_task s \<noteq> None"
      "sched_enter cfg s = Inr x" for x
    using sched_enter_props [OF inv ok that(3)] that(1,2) by blast
  have coop2: "task = None \<and> s' = s"
    if "KERNEL_MODE cfg = LIBRERTOS_COOPERATIVE" "current_task s \<noteq> None"
      "librertos_sched cfg exec s = Inr (task, s')" for task s'
  proof -
    from that(3) obtain x where x: "sched_enter cfg s = Inr x"
      by (cases "sched_enter cfg s") (simp_all add: librertos_sched_def bindE_def)
    from coop1 [OF that(1,2) x] x that(3) show ?thesis
      by (simp add: librertos_sched_def bindE_def)
  qed
  have coop3: "librertos_sched cfg exec s = Inr (None, s)"
    if "KERNEL_MODE cfg = LIBRERTOS_COOPERATIVE" "current_task s = Some c"
      "task_mem s c = Some tc" for c tc
  proof -
    from inv obtain cont where abs: "kernel_abs cfg s cont" by (auto simp: kernel_inv_def)
    from that(3) have "listv s c \<noteq> None"
      "statv s c = Some (owner (sched_node tc), priority tc, func tc, param tc)"
      by (simp_all add: listv_def statv_def)
    with kernel_absD(6) [OF abs, of c] ok have "0 \<le> priority tc" by (auto simp: config_ok_def)
    with that show ?thesis
      by (simp add: librertos_sched_def sched_enter_def get_task_def bindE_def)
  qed
  show ?thesis
    using sel run coop1 coop2 coop3 by (intro conjI allI impI) blast+
qed

lemma ex_cfg_ok: "config_ok (ex_cfg m)"
  by (simp add: config_ok_def ex_cfg_def)

lemma ex_one_reachable: "reachable (ex_cfg m) ex_exec (ex_one m)"
proof -
  have b: "task_mem ex_blank = (\<lambda>a. None)" by (simp add: ex_blank_def)
  have f: "task_mem (librertos_init (ex_cfg m) ex_blank) 10 = None"
    by (simp add: librertos_init_def ex_blank_def)
  show ?thesis by (rule r_create [OF r_init [OF b] f ex_one_run])
qed

lemma ex_entered_run:
  "sched_enter (ex_cfg m) (ex_one m) = Inr (Some (Some 10, ex_entered m))"
  by (simp add: ex_entered_def ex_one_def ex_cfg_def ex_blank_def kernel_defs Let_def)

lemma ex_running_run:
  "librertos_create_task (ex_cfg m) 1 11 1 101 (ex_entered m) = Inr (ex_running m)"
  by (simp add: ex_running_def ex_entered_def ex_one_def ex_cfg_def ex_blank_def kernel_defs Let_def)

lemma ex_running_reachable: "reachable (ex_cfg m) ex_exec (ex_running m)"
proof -
  have f: "task_mem (ex_entered m) 11 = None"
    by (simp add: ex_entered_def ex_one_def ex_cfg_def ex_blank_def kernel_defs Let_def)
  show ?thesis
    by (rule r_create [OF r_enter [OF ex_one_reachable ex_entered_run] f ex_running_run])
qed

lemma ex_running_facts:
  "current_task (ex_running m) = Some 10"
  "map_option priority (task_mem (ex_running m) 10) = Some 0"
  "map_option priority (task_mem (ex_running m) 11) = Some 1"
  by (simp_all add: ex_running_def ex_entered_def ex_one_def ex_cfg_def ex_blank_def kernel_defs Let_def)

lemma ex_running_sched:
  "\<exists>s'. librertos_sched (ex_cfg LIBRERTOS_PREEMPTIVE) ex_exec (ex_running LIBRERTOS_PREEMPTIVE)
          = Inr (Some 11, s') \<and> user s' = [101]"
  by (simp add: ex_running_def ex_entered_def ex_one_def ex_cfg_def ex_blank_def ex_exec_def
      kernel_defs Let_def)

text \<open>The task at 10 (priority 0) is running and the task at 11 (priority 1) is
  ready: the preemptive scheduler runs the task at 11, the cooperative one
  nothing.\<close>

theorem sched_selects_higher_priority_witness:
  "config_ok (ex_cfg LIBRERTOS_PREEMPTIVE) \<and>
   reachable (ex_cfg LIBRERTOS_PREEMPTIVE) ex_exec (ex_running LIBRERTOS_PREEMPTIVE) \<and>
   current_task (ex_running LIBRERTOS_PREEMPTIVE) = Some 10 \<and>
   map_option priority (task_mem (ex_running LIBRERTOS_PREEMPTIVE) 10) = Some 0 \<and>
   map_option priority (task_mem (ex_running LIBRERTOS_PREEMPTIVE) 11) = Some 1 \<and>
   (\<exists>s'. librertos_sched (ex_cfg LIBRERTOS_PREEMPTIVE) ex_exec (ex_running LIBRERTOS_PREEMPTIVE)
           = Inr (Some 11, s')) \<and>
   config_ok (ex_cfg LIBRERTOS_COOPERATIVE) \<and>
   reachable (ex_cfg LIBRERTOS_COOPERATIVE) ex_exec (ex_running LIBRERTOS_COOPERATIVE) \<and>
   current_task (ex_running LIBRERTOS_COOPERATIVE) = Some 10 \<and>
   librertos_sched (ex_cfg LIBRERTOS_COOPERATIVE) ex_exec (ex_running LIBRERTOS_COOPERATIVE)
     = Inr (None, ex_running LIBRERTOS_COOPERATIVE)"
proof -
  note T = sched_selects_higher_priority [OF ex_cfg_ok ex_running_reachable,
      of LIBRERTOS_COOPERATIVE]
  have m: "KERNEL_MODE (ex_cfg LIBRERTOS_COOPERATIVE) = LIBRERTOS_COOPERATIVE"
    by (simp add: ex_cfg_def)
  from ex_running_facts(2) [of LIBRERTOS_COOPERATIVE]
  obtain tc where tc: "task_mem (ex_running LIBRERTOS_COOPERATIVE) 10 = Some tc" by auto
  from T m ex_running_facts(1) [of LIBRERTOS_COOPERATIVE] tc
  have "librertos_sched (ex_cfg LIBRERTOS_COOPERATIVE) ex_exec (ex_running LIBRERTOS_COOPERATIVE)
     = Inr (None, ex_running LIBRERTOS_COOPERATIVE)"
    by blast
  then show ?thesis
    using ex_cfg_ok ex_running_reachable ex_running_facts ex_running_sched by blast
qed

text \<open>
  C5, as amended.  A call of \<^verbatim>\<open>librertos_sched\<close> dispatches at most one task.  Let
  \<open>cp\<close> be the priority of the task the call interrupts (\<open>- 1\<close> when none is
  running).  If a task is running in cooperative mode, or if no ready list of a
  priority above \<open>cp\<close> holds a task, the call returns without running a task and
  leaves the state as it was.  Otherwise it selects the first task of the
  highest-priority non-empty ready list (that priority is above \<open>cp\<close>), calls the
  task's function once, in the state the selection left (the ready list rotated,
  \<^verbatim>\<open>current_task\<close> set), and when the function returns the call returns the state
  in which the function returned, with \<^verbatim>\<open>current_task\<close> restored: the ready lists
  are not looked at again.  (A fault of the task function is the fault of the call.)
\<close>

theorem sched_dispatches_one_task:
  fixes s :: "('t::len, 'n::len, 'f, 'p, 'u) kernel"
  assumes ok: "config_ok cfg" and r: "reachable cfg exec s"
    and cp: "interrupted_priority s = Some cp"
  shows "if (KERNEL_MODE cfg = LIBRERTOS_COOPERATIVE \<and> current_task s \<noteq> None) \<or>
            (\<forall>k. cp < k \<and> k \<le> HIGH_PRIORITY cfg \<longrightarrow> list_empty (READY k) s = Inr True)
         then librertos_sched cfg exec s = Inr (None, s)
         else (\<exists>j a t s1.
                 cp < j \<and> j \<le> HIGH_PRIORITY cfg \<and>
                 list_empty (READY j) s = Inr False \<and>
                 (\<forall>k. j < k \<and> k \<le> HIGH_PRIORITY cfg \<longrightarrow> list_empty (READY k) s = Inr True) \<and>
                 list_get_first (READY j) s = Inr (PNode a) \<and>
                 task_mem s a = Some t \<and> priority t = j \<and>
                 sched_enter cfg s = Inr (Some (Some a, s1)) \<and>
                 current_task s1 = Some a \<and> user s1 = user s \<and> tick s1 = tick s \<and>
                 librertos_sched cfg exec s =
                   bindE (exec (func t) (param t) s1)
                     (\<lambda>s2. Inr (Some a, s2\<lparr>current_task := current_task s\<rparr>)))"
proof -
  note inv = reachable_kernel_inv [OF ok r]
  note lo = interrupted_priority_range [OF inv ok cp]
  note en = sched_enter_loop [OF cp, of cfg]
  have idle: "cp = - 1" if "current_task s = None"
    using that cp by (simp add: interrupted_priority_def)
  show ?thesis
  proof (cases "KERNEL_MODE cfg = LIBRERTOS_COOPERATIVE \<and> current_task s \<noteq> None")
    case True
    with lo(2) have "KERNEL_MODE cfg = LIBRERTOS_COOPERATIVE \<and> cp \<ge> 0" by simp
    then have "sched_enter cfg s = Inr None" by (simp add: en del: sched_loop.simps)
    with True show ?thesis by (simp add: librertos_sched_def bindE_def)
  next
    case False
    have "\<not> (KERNEL_MODE cfg = LIBRERTOS_COOPERATIVE \<and> cp \<ge> 0)"
    proof
      assume a: "KERNEL_MODE cfg = LIBRERTOS_COOPERATIVE \<and> cp \<ge> 0"
      with False have "current_task s = None" by simp
      from idle [OF this] a show False by simp
    qed
    then have en': "sched_enter cfg s = sched_loop cp (HIGH_PRIORITY cfg) s"
      by (auto simp: en simp del: sched_loop.simps)
    from sched_loop_total [OF inv ok order_refl lo(1)]
    obtain x where x: "sched_loop cp (HIGH_PRIORITY cfg) s = Inr x" by blast
    note L = sched_loop_props [OF inv ok order_refl lo(1) x]
    show ?thesis
    proof (cases x)
      case None
      with L have all: "\<forall>k. cp < k \<and> k \<le> HIGH_PRIORITY cfg \<longrightarrow> list_empty (READY k) s = Inr True"
        by blast
      from None x en' have "sched_enter cfg s = Inr None" by (simp only:)
      then have "librertos_sched cfg exec s = Inr (None, s)"
        by (simp add: librertos_sched_def bindE_def)
      moreover have "(KERNEL_MODE cfg = LIBRERTOS_COOPERATIVE \<and> current_task s \<noteq> None) \<or>
            (\<forall>k. cp < k \<and> k \<le> HIGH_PRIORITY cfg \<longrightarrow> list_empty (READY k) s = Inr True)"
        using all by blast
      ultimately show ?thesis by (simp only: if_True)
    next
      case (Some y)
      obtain task s1 where y: "y = (task, s1)" by (cases y)
      from L Some y obtain a j f p where
        P: "task = Some a" "cp < j" "j \<le> HIGH_PRIORITY cfg" "statv s a = Some (Some a, j, f, p)"
          "\<forall>k. j < k \<and> k \<le> HIGH_PRIORITY cfg \<longrightarrow> list_empty (READY k) s = Inr True"
          "list_empty (READY j) s = Inr False"
          "list_get_first (READY j) s = Inr (PNode a)"
          "current_task s1 = Some a"
          "statv s1 = statv s" "tick s1 = tick s" "user s1 = user s"
        by blast
      have nall: "\<not> (\<forall>k. cp < k \<and> k \<le> HIGH_PRIORITY cfg \<longrightarrow> list_empty (READY k) s = Inr True)"
      proof
        assume "\<forall>k. cp < k \<and> k \<le> HIGH_PRIORITY cfg \<longrightarrow> list_empty (READY k) s = Inr True"
        with P(2,3) have "list_empty (READY j) s = Inr True" by blast
        with P(6) show False by simp
      qed
      from statv_task [OF P(4)] obtain t where
        t: "task_mem s a = Some t" "priority t = j" "func t = f" "param t = p"
        by blast
      from P(4,9) have "statv s1 a = Some (Some a, j, f, p)" by simp
      from statv_task [OF this] obtain t1 where
        t1: "task_mem s1 a = Some t1" "func t1 = f" "param t1 = p"
        by blast
      have se: "sched_enter cfg s = Inr (Some (Some a, s1))"
        using en' x Some y P(1) by (simp only:)
      have rt: "run_task exec (Some a) s1 = exec (func t) (param t) s1"
        using t t1 by (simp add: run_task_def get_task_def bindE_def)
      have ls: "librertos_sched cfg exec s =
                   bindE (exec (func t) (param t) s1)
                     (\<lambda>s2. Inr (Some a, s2\<lparr>current_task := current_task s\<rparr>))"
        using se rt by (simp add: librertos_sched_def bindE_def)
      have "\<exists>j a t s1.
                 cp < j \<and> j \<le> HIGH_PRIORITY cfg \<and>
                 list_empty (READY j) s = Inr False \<and>
                 (\<forall>k. j < k \<and> k \<le> HIGH_PRIORITY cfg \<longrightarrow> list_empty (READY k) s = Inr True) \<and>
                 list_get_first (READY j) s = Inr (PNode a) \<and>
                 task_mem s a = Some t \<and> priority t = j \<and>
                 sched_enter cfg s = Inr (Some (Some a, s1)) \<and>
                 current_task s1 = Some a \<and> user s1 = user s \<and> tick s1 = tick s \<and>
                 librertos_sched cfg exec s =
                   bindE (exec (func t) (param t) s1)
                     (\<lambda>s2. Inr (Some a, s2\<lparr>current_task := current_task s\<rparr>))"
        using P t se ls by blast
      moreover have "\<not> ((KERNEL_MODE cfg = LIBRERTOS_COOPERATIVE \<and> current_task s \<noteq> None) \<or>
            (\<forall>k. cp < k \<and> k \<le> HIGH_PRIORITY cfg \<longrightarrow> list_empty (READY k) s = Inr True))"
        using False nall by blast
      ultimately show ?thesis by (simp only: if_False)
    qed
  qed
qed

lemma ex_two_reachable: "reachable (ex_cfg m) ex_exec (ex_two m)"
proof -
  have f: "task_mem (ex_one m) 11 = None"
    by (simp add: ex_one_def ex_cfg_def ex_blank_def kernel_defs Let_def)
  show ?thesis by (rule r_create [OF ex_one_reachable f ex_two_run])
qed

lemma ex_after_run:
  "librertos_sched (ex_cfg LIBRERTOS_PREEMPTIVE) ex_exec (ex_two LIBRERTOS_PREEMPTIVE)
     = Inr (Some 11, ex_after)"
  by (simp add: ex_after_def ex_two_def ex_one_def ex_cfg_def ex_blank_def ex_exec_def
      kernel_defs Let_def)

lemma ex_two_facts:
  "current_task (ex_two m) = None"
  "user (ex_two m) = []"
  by (simp_all add: ex_two_def ex_one_def ex_cfg_def ex_blank_def kernel_defs Let_def)

lemma ex_after_facts:
  "user ex_after = [101]"
  "current_task ex_after = None"
  "list_empty (READY 0) ex_after = Inr False"
  "list_empty (READY 1) ex_after = Inr False"
  by (simp_all add: ex_after_def ex_two_def ex_one_def ex_cfg_def ex_blank_def ex_exec_def
      kernel_defs Let_def)

lemma ex_parked_run:
  "task_suspend (Some 10) (ex_one LIBRERTOS_PREEMPTIVE) = Inr ex_parked"
  by (simp add: ex_parked_def ex_one_def ex_cfg_def ex_blank_def kernel_defs Let_def)

lemma ex_parked_reachable: "reachable (ex_cfg LIBRERTOS_PREEMPTIVE) ex_exec ex_parked"
  by (rule r_suspend [OF ex_one_reachable ex_parked_run])

lemma ex_idle_priority:
  "interrupted_priority (ex_two m) = Some (- 1)"
  "interrupted_priority ex_parked = Some (- 1)"
  "interrupted_priority (ex_running m) = Some 0"
  by (simp_all add: interrupted_priority_def ex_parked_def ex_running_def ex_entered_def
      ex_two_def ex_one_def ex_cfg_def ex_blank_def kernel_defs Let_def)

lemma ex_two_ready:
  "list_empty (READY 1) (ex_two m) = Inr False"
  "list_get_first (READY 1) (ex_two m) = Inr (PNode 11)"
  "HIGH_PRIORITY (ex_cfg m) = 1"
  "KERNEL_MODE (ex_cfg m) = m"
  by (simp_all add: ex_two_def ex_one_def ex_cfg_def ex_blank_def kernel_defs Let_def)

lemma ex_parked_empty:
  "- 1 < k \<and> k \<le> HIGH_PRIORITY (ex_cfg m) \<longrightarrow> list_empty (READY k) ex_parked = Inr True"
proof
  assume "- 1 < k \<and> k \<le> HIGH_PRIORITY (ex_cfg m)"
  then have "k = 0 \<or> k = 1" by (auto simp: ex_cfg_def)
  then show "list_empty (READY k) ex_parked = Inr True"
    by (auto simp: ex_parked_def ex_one_def ex_cfg_def ex_blank_def kernel_defs Let_def)
qed

text \<open>With both example tasks ready and none running, one call runs the task at
  11 once; with the only task suspended, and with a task running in cooperative
  mode, a call runs nothing.\<close>

theorem sched_dispatches_one_task_witness:
  "config_ok (ex_cfg LIBRERTOS_PREEMPTIVE) \<and>
   reachable (ex_cfg LIBRERTOS_PREEMPTIVE) ex_exec (ex_two LIBRERTOS_PREEMPTIVE) \<and>
   interrupted_priority (ex_two LIBRERTOS_PREEMPTIVE) = Some (- 1) \<and>
   list_empty (READY 1) (ex_two LIBRERTOS_PREEMPTIVE) = Inr False \<and>
   list_get_first (READY 1) (ex_two LIBRERTOS_PREEMPTIVE) = Inr (PNode 11) \<and>
   (\<exists>t s1. task_mem (ex_two LIBRERTOS_PREEMPTIVE) 11 = Some t \<and> priority t = 1 \<and>
      sched_enter (ex_cfg LIBRERTOS_PREEMPTIVE) (ex_two LIBRERTOS_PREEMPTIVE)
        = Inr (Some (Some 11, s1)) \<and>
      current_task s1 = Some 11 \<and>
      librertos_sched (ex_cfg LIBRERTOS_PREEMPTIVE) ex_exec (ex_two LIBRERTOS_PREEMPTIVE)
        = bindE (ex_exec (func t) (param t) s1)
            (\<lambda>s2. Inr (Some 11, s2\<lparr>current_task := current_task (ex_two LIBRERTOS_PREEMPTIVE)\<rparr>))) \<and>
   librertos_sched (ex_cfg LIBRERTOS_PREEMPTIVE) ex_exec (ex_two LIBRERTOS_PREEMPTIVE)
     = Inr (Some 11, ex_after) \<and>
   user (ex_two LIBRERTOS_PREEMPTIVE) = [] \<and> user ex_after = [101] \<and>
   reachable (ex_cfg LIBRERTOS_PREEMPTIVE) ex_exec ex_parked \<and>
   interrupted_priority ex_parked = Some (- 1) \<and>
   list_empty (READY 0) ex_parked = Inr True \<and>
   list_empty (READY 1) ex_parked = Inr True \<and>
   librertos_sched (ex_cfg LIBRERTOS_PREEMPTIVE) ex_exec ex_parked = Inr (None, ex_parked) \<and>
   reachable (ex_cfg LIBRERTOS_COOPERATIVE) ex_exec (ex_running LIBRERTOS_COOPERATIVE) \<and>
   interrupted_priority (ex_running LIBRERTOS_COOPERATIVE) = Some 0 \<and>
   current_task (ex_running LIBRERTOS_COOPERATIVE) = Some 10 \<and>
   librertos_sched (ex_cfg LIBRERTOS_COOPERATIVE) ex_exec (ex_running LIBRERTOS_COOPERATIVE)
     = Inr (None, ex_running LIBRERTOS_COOPERATIVE)"
proof -
  let ?P = "ex_cfg LIBRERTOS_PREEMPTIVE" and ?s = "ex_two LIBRERTOS_PREEMPTIVE"
  note T = sched_dispatches_one_task [OF ex_cfg_ok ex_two_reachable ex_idle_priority(1),
      of LIBRERTOS_PREEMPTIVE]
  have ne: "\<not> ((KERNEL_MODE ?P = LIBRERTOS_COOPERATIVE \<and> current_task ?s \<noteq> None) \<or>
      (\<forall>k. - 1 < k \<and> k \<le> HIGH_PRIORITY ?P \<longrightarrow> list_empty (READY k) ?s = Inr True))"
  proof
    assume "(KERNEL_MODE ?P = LIBRERTOS_COOPERATIVE \<and> current_task ?s \<noteq> None) \<or>
      (\<forall>k. - 1 < k \<and> k \<le> HIGH_PRIORITY ?P \<longrightarrow> list_empty (READY k) ?s = Inr True)"
    then have "- 1 < (1 :: int) \<and> 1 \<le> HIGH_PRIORITY ?P \<longrightarrow> list_empty (READY 1) ?s = Inr True"
      by (auto simp: ex_two_ready(4))
    then show False by (simp add: ex_two_ready)
  qed
  from T ne obtain j a t s1 where
    J: "- 1 < j" "j \<le> HIGH_PRIORITY ?P"
      "\<forall>k. j < k \<and> k \<le> HIGH_PRIORITY ?P \<longrightarrow> list_empty (READY k) ?s = Inr True"
      "list_get_first (READY j) ?s = Inr (PNode a)"
      "task_mem ?s a = Some t" "priority t = j"
      "sched_enter ?P ?s = Inr (Some (Some a, s1))"
      "current_task s1 = Some a"
      "librertos_sched ?P ex_exec ?s =
         bindE (ex_exec (func t) (param t) s1)
           (\<lambda>s2. Inr (Some a, s2\<lparr>current_task := current_task ?s\<rparr>))"
    by (simp only: if_False) blast
  have j1: "j = 1"
  proof (rule ccontr)
    assume "j \<noteq> 1"
    with J(1,2) have "j < 1 \<and> 1 \<le> HIGH_PRIORITY ?P" by (simp add: ex_two_ready(3))
    with J(3) have "list_empty (READY 1) ?s = Inr True" by blast
    then show False by (simp add: ex_two_ready)
  qed
  with J(4) have a: "a = 11" by (simp add: ex_two_ready)
  have two: "\<exists>t s1. task_mem ?s 11 = Some t \<and> priority t = 1 \<and>
      sched_enter ?P ?s = Inr (Some (Some 11, s1)) \<and>
      current_task s1 = Some 11 \<and>
      librertos_sched ?P ex_exec ?s
        = bindE (ex_exec (func t) (param t) s1)
            (\<lambda>s2. Inr (Some 11, s2\<lparr>current_task := current_task ?s\<rparr>))"
    using J(5-9) unfolding a j1 by blast
  note U = sched_dispatches_one_task [OF ex_cfg_ok ex_parked_reachable ex_idle_priority(2)]
  have "\<forall>k. - 1 < k \<and> k \<le> HIGH_PRIORITY ?P \<longrightarrow> list_empty (READY k) ex_parked = Inr True"
    using ex_parked_empty by blast
  with U have parked: "librertos_sched ?P ex_exec ex_parked = Inr (None, ex_parked)"
    by simp
  note V = sched_dispatches_one_task [OF ex_cfg_ok ex_running_reachable ex_idle_priority(3),
      of LIBRERTOS_COOPERATIVE]
  have "KERNEL_MODE (ex_cfg LIBRERTOS_COOPERATIVE) = LIBRERTOS_COOPERATIVE \<and>
      current_task (ex_running LIBRERTOS_COOPERATIVE) \<noteq> None"
    by (simp add: ex_two_ready(4) ex_running_facts(1))
  with V have coop: "librertos_sched (ex_cfg LIBRERTOS_COOPERATIVE) ex_exec
      (ex_running LIBRERTOS_COOPERATIVE) = Inr (None, ex_running LIBRERTOS_COOPERATIVE)"
    by simp
  have e0: "list_empty (READY 0) ex_parked = Inr True"
    and e1: "list_empty (READY 1) ex_parked = Inr True"
    using ex_parked_empty [of 0 LIBRERTOS_PREEMPTIVE] ex_parked_empty [of 1 LIBRERTOS_PREEMPTIVE]
    by (simp_all add: ex_two_ready(3))
  show ?thesis
    using ex_cfg_ok ex_two_reachable ex_idle_priority ex_two_ready(1,2) two ex_after_run
      ex_two_facts(2) ex_after_facts(1) ex_parked_reachable e0 e1 parked
      ex_running_reachable ex_running_facts(1) coop
    by blast
qed

text \<open>
  C5 as stated fails.  With both example tasks ready and none running, one call
  runs the task at 11 only and returns; the ready lists of priorities 0 and 1 both
  still hold a task, of a priority above that of the interrupted context (none).
\<close>

theorem sched_returns_with_ready_work_counterexample:
  "current_task (ex_two LIBRERTOS_PREEMPTIVE) = None \<and>
   librertos_sched (ex_cfg LIBRERTOS_PREEMPTIVE) ex_exec (ex_two LIBRERTOS_PREEMPTIVE)
     = Inr (Some 11, ex_after) \<and>
   user ex_after = [101] \<and>
   list_empty (READY 0) ex_after = Inr False \<and>
   list_empty (READY 1) ex_after = Inr False \<and>
   \<not> no_higher_ready_work (ex_cfg LIBRERTOS_PREEMPTIVE) (- 1) ex_after"
proof -
  have "\<not> no_higher_ready_work (ex_cfg LIBRERTOS_PREEMPTIVE) (- 1) ex_after"
  proof
    assume "no_higher_ready_work (ex_cfg LIBRERTOS_PREEMPTIVE) (- 1) ex_after"
    then have "list_empty (READY 0) ex_after = Inr True"
      by (simp add: no_higher_ready_work_def ex_cfg_def)
    with ex_after_facts(3) show False by simp
  qed
  with ex_after_run ex_after_facts ex_two_facts show ?thesis by blast
qed

text \<open>
  C4, as amended.  A call of \<^verbatim>\<open>librertos_tick_interrupt\<close> increments the tick
  counter by one, wrapping around at the width of \<^verbatim>\<open>tick_t\<close>, and changes nothing
  else: the ready lists, the suspended list, every task and \<^verbatim>\<open>current_task\<close> are
  as before, so no task is moved.
\<close>

theorem tick_interrupt_only_counts:
  fixes s :: "('t::len, 'n::len, 'f, 'p, 'u) kernel"
  shows "get_tick (librertos_tick_interrupt s) = get_tick s + 1 \<and>
         unat (get_tick (librertos_tick_interrupt s)) = (unat (get_tick s) + 1) mod 2 ^ LENGTH('t) \<and>
         current_task (librertos_tick_interrupt s) = current_task s \<and>
         tasks_ready (librertos_tick_interrupt s) = tasks_ready s \<and>
         tasks_suspended (librertos_tick_interrupt s) = tasks_suspended s \<and>
         task_mem (librertos_tick_interrupt s) = task_mem s \<and>
         user (librertos_tick_interrupt s) = user s"
  by (simp add: librertos_tick_interrupt_def get_tick_def unat_word_ariths)

lemma ex_parked_facts:
  "tick ex_parked = 0"
  "list_empty (READY 0) ex_parked = Inr True"
  "map_option (\<lambda>t. (priority t, list (sched_node t))) (task_mem ex_parked 10)
     = Some (0, Some SUSPENDED)"
  by (simp_all add: ex_parked_def ex_one_def ex_cfg_def ex_blank_def kernel_defs Let_def)

text \<open>From tick 0 to 1, from 65535 to 0 on 16 bits; the lists are untouched.\<close>

theorem tick_interrupt_only_counts_witness:
  "get_tick ex_parked = 0 \<and>
   get_tick (librertos_tick_interrupt ex_parked) = 1 \<and>
   get_tick (librertos_tick_interrupt (ex_parked\<lparr>tick := 65535\<rparr>)) = 0 \<and>
   tasks_ready (librertos_tick_interrupt ex_parked) = tasks_ready ex_parked \<and>
   tasks_suspended (librertos_tick_interrupt ex_parked) = tasks_suspended ex_parked \<and>
   task_mem (librertos_tick_interrupt ex_parked) = task_mem ex_parked"
  using tick_interrupt_only_counts [of ex_parked]
    tick_interrupt_only_counts [of "ex_parked\<lparr>tick := 65535\<rparr>"] ex_parked_facts(1)
  by (simp add: get_tick_def)

lemmas pend_defs = ex_pended_def ex_reader_def ex_reader_exec_def ex_app_blank_def
  task_QueuePendRead_def OSEventPendTask_k_def QueuePendRead_def OSEventPrePendTask_f_def
  OSEventPendTask_f_def QueueInit_def last_item_index_def INT_BITS_def OSEventRwInit_f_def
  example_sys_def call_def pended_tasks_def ex_cfg_def

lemma ex_pended_run:
  "librertos_sched (ex_cfg LIBRERTOS_PREEMPTIVE) ex_reader_exec ex_reader = Inr (Some 10, ex_pended)"
  by (simp add: pend_defs kernel_defs Let_def)

lemma ex_pended_facts:
  "pended_tasks ex_reader = []"
  "pended_tasks ex_pended = [10]"
  "snd (user ex_pended) 10 = Some 1"
  "tick ex_pended = 0"
  "current_task ex_pended = None"
  "map_option (\<lambda>t. (priority t, list (sched_node t))) (task_mem ex_pended 10) = Some (0, None)"
  "list_empty (READY 0) ex_pended = Inr True"
  by (simp_all add: pend_defs kernel_defs Let_def)

lemma ex_pended_calls:
  "calls (fst (user ex_pended)) =
     [OSEventRwInit, SchedulerLock, INTERRUPTS_DISABLE, GetCurrentTask,
      OSEventPrePendTask LIST_READ 10, INTERRUPTS_ENABLE, OSEventPendTask LIST_READ 10 1,
      SchedulerUnlock]"
  by (simp add: pend_defs kernel_defs Let_def)

lemma tick_wakes_expired_idle:
  "\<forall>a \<in> set (pended_tasks s). snd (user s) a \<noteq> Some (tick s + 1) \<Longrightarrow>
   tick_wakes_expired s (librertos_tick_interrupt s)"
  by (auto simp: tick_wakes_expired_def librertos_tick_interrupt_def)

text \<open>
  C4 as stated fails.  The task at 10 runs and calls \<^verbatim>\<open>QueuePendRead\<close> with
  \<^verbatim>\<open>ticks_to_wait = 1\<close> on the empty queue at tick 0: it is on the queue's read wait
  list, off its ready list, with the wake deadline 1.  The tick handler moves the
  tick from 0 to 1, and the task is still on the wait list and on no ready list.
\<close>

theorem tick_interrupt_wakes_nothing_counterexample:
  "librertos_sched (ex_cfg LIBRERTOS_PREEMPTIVE) ex_reader_exec ex_reader = Inr (Some 10, ex_pended) \<and>
   pended_tasks ex_pended = [10] \<and>
   snd (user ex_pended) 10 = Some 1 \<and>
   tick ex_pended = 0 \<and>
   tick (librertos_tick_interrupt ex_pended) = 1 \<and>
   pended_tasks (librertos_tick_interrupt ex_pended) = [10] \<and>
   map_option (\<lambda>t. (priority t, list (sched_node t)))
     (task_mem (librertos_tick_interrupt ex_pended) 10) = Some (0, None) \<and>
   list_empty (READY 0) (librertos_tick_interrupt ex_pended) = Inr True \<and>
   \<not> tick_wakes_expired ex_pended (librertos_tick_interrupt ex_pended)"
proof -
  have t: "tick (librertos_tick_interrupt ex_pended) = 1"
    using ex_pended_facts(4) by (simp add: librertos_tick_interrupt_def)
  have m: "task_mem (librertos_tick_interrupt ex_pended) = task_mem ex_pended"
    by (simp add: librertos_tick_interrupt_def)
  have p: "pended_tasks (librertos_tick_interrupt ex_pended) = pended_tasks ex_pended"
    by (simp add: librertos_tick_interrupt_def pended_tasks_def)
  have "list_empty (READY 0) (librertos_tick_interrupt ex_pended) = list_empty (READY 0) ex_pended"
    by (simp add: librertos_tick_interrupt_def list_empty_def get_list_t_def)
  then have e: "list_empty (READY 0) (librertos_tick_interrupt ex_pended) = Inr True"
    by (simp only: ex_pended_facts(7))
  have "\<not> tick_wakes_expired ex_pended (librertos_tick_interrupt ex_pended)"
    by (simp add: tick_wakes_expired_def t p ex_pended_facts(2,3))
  with t m p e ex_pended_run ex_pended_facts show ?thesis by simp
qed

text \<open>
  C10.  \<^verbatim>\<open>task_suspend(NULL)\<close> needs a running task.  When \<^verbatim>\<open>current_task\<close> is
  null, as it is after \<^verbatim>\<open>librertos_init\<close>, the call dereferences the null task
  pointer (in \<^verbatim>\<open>list_remove\<close>): a fault, neither an error result nor a no-op.
  When a task is running, the call suspends that task.
\<close>

theorem task_suspend_null_needs_current_task:
  fixes s :: "('t::len, 'n::len, 'f, 'p, 'u) kernel"
    and s0 :: "('t, 'n, 'f, 'p, 'u) kernel"
  shows "(current_task s = None \<longrightarrow> task_suspend None s = Inl NullPointer) \<and>
         current_task (librertos_init cfg s0) = None \<and>
         task_suspend None (librertos_init cfg s0) = Inl NullPointer \<and>
         (\<forall>c. current_task s = Some c \<longrightarrow> task_suspend None s = task_suspend (Some c) s)"
  by (simp add: task_suspend_def sched_node_of_def list_remove_NULL bindE_def librertos_init_def)

text \<open>After initialisation, and with two tasks ready and none running, the call
  faults; with the task at 10 running, it suspends that task.\<close>

theorem task_suspend_null_needs_current_task_witness:
  "current_task (librertos_init (ex_cfg LIBRERTOS_PREEMPTIVE) ex_blank) = None \<and>
   task_suspend None (librertos_init (ex_cfg LIBRERTOS_PREEMPTIVE) ex_blank) = Inl NullPointer \<and>
   current_task (ex_two LIBRERTOS_PREEMPTIVE) = None \<and>
   task_suspend None (ex_two LIBRERTOS_PREEMPTIVE) = Inl NullPointer \<and>
   current_task (ex_running LIBRERTOS_PREEMPTIVE) = Some 10 \<and>
   task_suspend None (ex_running LIBRERTOS_PREEMPTIVE)
     = task_suspend (Some 10) (ex_running LIBRERTOS_PREEMPTIVE) \<and>
   (\<exists>s'. task_suspend None (ex_running LIBRERTOS_PREEMPTIVE) = Inr s')"
proof -
  have "\<exists>s'. task_suspend (Some 10) (ex_running LIBRERTOS_PREEMPTIVE) = Inr s'"
    by (simp add: ex_running_def ex_entered_def ex_one_def ex_cfg_def ex_blank_def
        kernel_defs Let_def)
  then show ?thesis
    using task_suspend_null_needs_current_task
        [of "ex_two LIBRERTOS_PREEMPTIVE" "ex_cfg LIBRERTOS_PREEMPTIVE" ex_blank]
      task_suspend_null_needs_current_task
        [of "ex_running LIBRERTOS_PREEMPTIVE" "ex_cfg LIBRERTOS_PREEMPTIVE" ex_blank]
      ex_two_facts(1) [of LIBRERTOS_PREEMPTIVE] ex_running_facts(1) [of LIBRERTOS_PREEMPTIVE]
    by simp
qed

end
